theory Spec2Isabelle
  imports Main
begin

section \<open>JavaScript values used by the orchestrator\<close>

text \<open>
  The source is TypeScript (\<^verbatim>\<open>src/src/aven.ts\<close>, holding the class \<^verbatim>\<open>Aven\<close> and its
  later variant \<^verbatim>\<open>Atticus\<close>, \<^verbatim>\<open>src/src/languages.ts\<close>, \<^verbatim>\<open>src/src/types.ts\<close>).
  A value that may be \<^verbatim>\<open>null\<close> or \<^verbatim>\<open>undefined\<close> is an \<open>option\<close>. The test
  \<^verbatim>\<open>if (s)\<close> on such a string is false for \<^verbatim>\<open>null\<close>, \<^verbatim>\<open>undefined\<close> and the empty string.
\<close>

definition truthy :: "string option \<Rightarrow> bool" where
  "truthy v = (case v of None \<Rightarrow> False | Some s \<Rightarrow> s \<noteq> [])"

text \<open>\<^verbatim>\<open>v || d\<close> on strings.\<close>

definition or_else :: "string option \<Rightarrow> string \<Rightarrow> string" where
  "or_else v d = (case v of None \<Rightarrow> d | Some s \<Rightarrow> if s = [] then d else s)"

text \<open>\<^verbatim>\<open>v || null\<close> on strings.\<close>

definition or_null :: "string option \<Rightarrow> string option" where
  "or_null v = (case v of None \<Rightarrow> None | Some s \<Rightarrow> if s = [] then None else Some s)"

text \<open>A template literal prints \<^verbatim>\<open>null\<close> for a null string.\<close>

definition show_nullable :: "string option \<Rightarrow> string" where
  "show_nullable v = (case v of None \<Rightarrow> ''null'' | Some s \<Rightarrow> s)"

text \<open>The decimal rendering of a counter inside a template literal.\<close>

fun string_of_nat :: "nat \<Rightarrow> string" where
  "string_of_nat n =
     (if n < 10 then [char_of (48 + n)]
      else string_of_nat (n div 10) @ [char_of (48 + n mod 10)])"

declare string_of_nat.simps [simp del]

text \<open>
  A thrown value: an instance of \<^verbatim>\<open>Error\<close> with its message, or anything else
  (\<^verbatim>\<open>error instanceof Error\<close> is false for it).
\<close>

datatype exn = JsError string | JsThrown

text \<open>What a piece of executed code hands back (the type \<^verbatim>\<open>unknown\<close> of the source).\<close>

datatype js_value = JsNull | JsUndefined | JsValue string

section \<open>What the code takes from its surroundings\<close>

text \<open>
  Texts that the model does not fix: the text returned by \<^verbatim>\<open>getUIDirective\<close>; the table
  \<^verbatim>\<open>LANGUAGE_GREETINGS\<close>, which holds greetings in each language's own script, as a
  lookup sees it; what the
  object \<^verbatim>\<open>LANGUAGE_NAMES\<close> inherits from \<^verbatim>\<open>Object.prototype\<close>, namely, for each
  property name found there with a truthy value (\<^verbatim>\<open>constructor\<close>, \<^verbatim>\<open>toString\<close> and so
  on), the text that a template literal prints for the value; and the message that the
  engine gives the \<^verbatim>\<open>TypeError\<close> it throws when a property is read from
  \<^verbatim>\<open>undefined\<close> or \<^verbatim>\<open>null\<close>, which depends on that value and on the property's name.
\<close>

record env =
  env_uiDirective :: string
  env_greetings :: "string \<rightharpoonup> string"
  env_inherited :: "string \<rightharpoonup> string"
  env_typeError :: "js_value \<Rightarrow> string \<Rightarrow> string"

text \<open>
  The \<^verbatim>\<open>TypeError\<close> of reading the property \<open>property\<close> from \<open>v\<close>, an instance of
  \<^verbatim>\<open>Error\<close>.
\<close>

definition TypeError :: "env \<Rightarrow> js_value \<Rightarrow> string \<Rightarrow> exn" where
  "TypeError r v property = JsError (env_typeError r v property)"

section \<open>languages.ts\<close>

definition SUPPORTED_TRANSCRIPTION_LANGUAGES :: "string list" where
  "SUPPORTED_TRANSCRIPTION_LANGUAGES =
    [''af'', ''ar'', ''az'', ''be'', ''bg'', ''bs'', ''ca'', ''cs'', ''cy'', ''da'',
     ''de'', ''el'', ''en'', ''es'', ''et'', ''fa'', ''fi'', ''fr'', ''gl'', ''he'',
     ''hi'', ''hr'', ''hu'', ''hy'', ''id'', ''is'', ''it'', ''iw'', ''ja'', ''kk'',
     ''kn'', ''ko'', ''lt'', ''lv'', ''mi'', ''mk'', ''mr'', ''ms'', ''ne'', ''nl'',
     ''no'', ''pl'', ''pt'', ''ro'', ''ru'', ''sk'', ''sl'', ''sr'', ''sv'', ''sw'',
     ''ta'', ''th'', ''tl'', ''tr'', ''uk'', ''ur'', ''vi'', ''zh'']"

definition isTranscriptionSupported :: "string \<Rightarrow> bool" where
  "isTranscriptionSupported code = (code \<in> set SUPPORTED_TRANSCRIPTION_LANGUAGES)"

definition LANGUAGE_NAMES :: "(string \<times> string) list" where
  "LANGUAGE_NAMES =
    [(''en'', ''English''), (''hi'', ''Hindi''), (''es'', ''Spanish''), (''fr'', ''French''),
     (''de'', ''German''), (''it'', ''Italian''), (''pt'', ''Portuguese''), (''ru'', ''Russian''),
     (''ja'', ''Japanese''), (''ko'', ''Korean''), (''zh'', ''Chinese''), (''ar'', ''Arabic''),
     (''bn'', ''Bengali''), (''pa'', ''Punjabi''), (''ta'', ''Tamil''), (''te'', ''Telugu''),
     (''mr'', ''Marathi''), (''gu'', ''Gujarati''), (''kn'', ''Kannada''), (''ml'', ''Malayalam''),
     (''th'', ''Thai''), (''vi'', ''Vietnamese''), (''id'', ''Indonesian''), (''ms'', ''Malay''),
     (''tr'', ''Turkish''), (''pl'', ''Polish''), (''nl'', ''Dutch''), (''sv'', ''Swedish''),
     (''da'', ''Danish''), (''no'', ''Norwegian''), (''fi'', ''Finnish''), (''cs'', ''Czech''),
     (''sk'', ''Slovak''), (''hu'', ''Hungarian''), (''ro'', ''Romanian''), (''bg'', ''Bulgarian''),
     (''uk'', ''Ukrainian''), (''el'', ''Greek''), (''he'', ''Hebrew''), (''fa'', ''Persian''),
     (''ur'', ''Urdu''), (''sw'', ''Swahili'')]"

text \<open>
  \<^verbatim>\<open>LANGUAGE_NAMES[code] || code\<close>. The table is an object literal: a key that it does
  not own is looked up in \<^verbatim>\<open>Object.prototype\<close>, and what is found there is a function
  or an object, which is truthy, so that the result is then not the code. Every caller
  prints the result in a template literal; the result is given as the text printed.
\<close>

definition getLanguageName :: "env \<Rightarrow> string \<Rightarrow> string" where
  "getLanguageName r code =
     or_else
       (case map_of LANGUAGE_NAMES code of
          Some name \<Rightarrow> Some name
        | None \<Rightarrow> env_inherited r code)
       code"

text \<open>
  \<^verbatim>\<open>LANGUAGE_GREETINGS[code] || 'Hello!'\<close>, the table being the parameter \<open>greetings\<close>.
\<close>

definition getLanguageGreeting :: "(string \<rightharpoonup> string) \<Rightarrow> string \<Rightarrow> string" where
  "getLanguageGreeting greetings code = or_else (greetings code) ''Hello!''"

section \<open>types.ts\<close>

datatype AvenStatus = StIdle | StConnecting | StConnected | StError

datatype ConversationState = CsIdle | CsAiSpeaking | CsUserTurn | CsUserSpeaking

datatype MessageContent = Text string | Audio "string option"

text \<open>
  A \<^verbatim>\<open>RealtimeItem\<close> of the session library, as far as the orchestrator reads it: its
  \<^verbatim>\<open>type\<close>, \<^verbatim>\<open>itemId\<close>, \<^verbatim>\<open>role\<close> and \<^verbatim>\<open>content\<close> array, each entry of which has a
  \<^verbatim>\<open>type\<close> and may have a \<^verbatim>\<open>text\<close> or a \<^verbatim>\<open>transcript\<close>.
\<close>

record raw_content =
  ctype :: string
  ctext :: "string option"
  ctranscript :: "string option"

record RealtimeItem =
  itype :: string
  itemId :: "string option"
  irole :: string
  icontent :: "raw_content list option"

record Message =
  mid :: string
  mrole :: string
  mcontent :: MessageContent
  mraw :: RealtimeItem
  mtimestamp :: nat

datatype UIActionType =
  Click | Type | Scroll | Focus | Hover | Select | Navigate | Read | Other

record UIAction =
  aid :: string
  outputText :: string
  outputCode :: "string option"
  actionDescription :: "string option"
  targetElement :: "string option"
  actionType :: "UIActionType option"
  atimestamp :: nat

record AvenState =
  s_status :: AvenStatus
  s_conversationState :: ConversationState
  s_error :: "string option"
  s_history :: "Message list"
  s_isConnected :: bool
  s_isAiSpeaking :: bool
  s_isUserSpeaking :: bool

text \<open>The events of \<^verbatim>\<open>AvenEvents\<close> (and the two added by \<^verbatim>\<open>Atticus\<close>), with their arguments.\<close>

datatype event =
    EvStatusChange AvenStatus
  | EvConversationStateChange ConversationState
  | EvError string
  | EvMessage Message
  | EvHistoryChange "Message list"
  | EvStateChange AvenState
  | EvAgentStart
  | EvAgentEnd
  | EvAudioStart
  | EvAudioEnd
  | EvUserAudio
  | EvConnected
  | EvDisconnected
  | EvAction UIAction

text \<open>
  A reference to a live DOM element. Its content changes under the orchestrator, so what
  a capture reads from it is an input of the capture (see \<open>capture\<close> below).
\<close>

datatype Element = Element nat

record D2SnapOptions =
  maxTokens :: "nat option"
  assignUniqueIDs :: "bool option"

record UIConfig =
  ui_enabled :: bool
  ui_rootElement :: "Element option"
  ui_d2SnapOptions :: "D2SnapOptions option"
  ui_autoUpdate :: "bool option"
  ui_autoUpdateInterval :: "nat option"

record AgentConfig =
  agent_name :: string
  agent_instructions :: string

text \<open>
  The configuration a caller passes. The TypeScript type makes \<^verbatim>\<open>clientSecret\<close> and
  \<^verbatim>\<open>agent\<close> mandatory, but the constructor runs on whatever object a JavaScript caller
  hands it, so both are options here, as every optional field is.
\<close>

record AvenConfig =
  c_clientSecret :: "string option"
  c_agent :: "AgentConfig option"
  c_language :: "string option"
  c_model :: "string option"
  c_voice :: "string option"
  c_autoGreet :: "bool option"
  c_greetingMessage :: "string option"
  c_debug :: "bool option"
  c_doNotExecuteActions :: "bool option"
  c_ui :: "UIConfig option"


section \<open>The effective configuration and the state of an instance\<close>

text \<open>
  \<^verbatim>\<open>Aven\<close> is the direct profile (one tool); \<^verbatim>\<open>Atticus\<close>, its later variant in
  the same file, is the inspect-then-act profile. The two classes share every method
  modelled here except where a definition below branches on the profile.
\<close>

datatype profile = Direct | InspectThenAct

record EffectiveUI =
  enabled :: bool
  rootElement :: "Element option"
  autoUpdate :: bool
  autoUpdateInterval :: nat
  d2_maxTokens :: nat
  d2_assignUniqueIDs :: "bool option"

record Config =
  clientSecret :: "string option"
  agentCfg :: AgentConfig
  model :: string
  voice :: string
  language :: string
  autoGreet :: bool
  greetingMessage :: string
  debug :: bool
  doNotExecuteActions :: bool
  ui :: EffectiveUI

record RealtimeAgent =
  ra_name :: string
  ra_instructions :: string
  ra_tools :: "string list"
  ra_voice :: string

record transcription =
  tr_model :: string
  tr_language :: "string option"

text \<open>
  The calls an instance makes on the external session library, in order. A session is
  named by the number of sessions created before it.
\<close>

datatype session_call =
    SessNew nat string transcription
  | SessConnect nat "string option"
  | SessSend nat string
  | SessInterrupt nat
  | SessClose nat

text \<open>
  The private fields of the class, and four records of what the instance does to the
  outside: \<open>published\<close> lists the calls of \<^verbatim>\<open>emit\<close> in order (event and arguments),
  \<open>sessionLog\<close> the calls on sessions, \<open>executed\<close> the code strings run by
  \<^verbatim>\<open>executeAction\<close>; \<open>pending\<close> counts the calls of \<^verbatim>\<open>connect\<close> suspended at
  \<^verbatim>\<open>await this.session.connect\<close>. Which callbacks a call of \<^verbatim>\<open>emit\<close> invokes is the
  subject of the event-bus section; in this part a subscriber observes and does not
  call back into the instance. Debug logging (\<^verbatim>\<open>this.log\<close>) is left out.
\<close>

record aven =
  config :: Config
  profile :: profile
  agent :: RealtimeAgent
  session :: "nat option"
  status :: AvenStatus
  conversationState :: ConversationState
  error :: "string option"
  history :: "Message list"
  messageIdCounter :: nat
  actionIdCounter :: nat
  currentDOM :: "string option"
  autoUpdateTimer :: bool
  sessionsCreated :: nat
  pending :: nat
  published :: "event list"
  sessionLog :: "session_call list"
  executed :: "string list"

section \<open>Construction\<close>

definition DEFAULT_UI :: "profile \<Rightarrow> EffectiveUI" where
  "DEFAULT_UI p =
     \<lparr>enabled = False, rootElement = None, autoUpdate = False, autoUpdateInterval = 5000,
      d2_maxTokens = 4096,
      d2_assignUniqueIDs = (case p of Direct \<Rightarrow> Some True | InspectThenAct \<Rightarrow> None)\<rparr>"

definition nullish :: "'a option \<Rightarrow> 'a \<Rightarrow> 'a" where
  "nullish v d = (case v of None \<Rightarrow> d | Some x \<Rightarrow> x)"

definition mergeUI :: "profile \<Rightarrow> UIConfig option \<Rightarrow> EffectiveUI" where
  "mergeUI p u =
     (case u of
        None \<Rightarrow> DEFAULT_UI p
      | Some c \<Rightarrow>
          \<lparr>enabled = ui_enabled c,
           rootElement = ui_rootElement c,
           autoUpdate = nullish (ui_autoUpdate c) False,
           autoUpdateInterval = nullish (ui_autoUpdateInterval c) 5000,
           d2_maxTokens =
             nullish (case ui_d2SnapOptions c of None \<Rightarrow> None | Some d \<Rightarrow> maxTokens d) 4096,
           d2_assignUniqueIDs =
             (case p of
                Direct \<Rightarrow>
                  Some (nullish
                    (case ui_d2SnapOptions c of None \<Rightarrow> None | Some d \<Rightarrow> assignUniqueIDs d)
                    True)
              | InspectThenAct \<Rightarrow> None)\<rparr>)"

definition newline :: string where
  "newline = [CHR 0x0A]"

definition getLanguageDirective :: "env \<Rightarrow> string \<Rightarrow> string" where
  "getLanguageDirective r lang =
     (let languageName = getLanguageName r (or_else (Some lang) ''en'') in
      ''IMPORTANT: You MUST speak and respond ONLY in '' @ languageName @
      ''. All your responses should be in '' @ languageName @
      ''. If the user speaks in any other language, still respond in '' @ languageName @ ''.'')"

definition getGenderDirective :: "string \<Rightarrow> string option" where
  "getGenderDirective v =
     (if v \<in> set [''alloy'', ''coral'', ''sage'', ''shimmer''] then
        Some ''IMPORTANT: You are a female assistant. Speak and present yourself as female.''
      else if v \<in> set [''ash'', ''ballad'', ''echo'', ''verse''] then
        Some ''IMPORTANT: You are a male assistant. Speak and present yourself as male.''
      else None)"

text \<open>
  \<^verbatim>\<open>buildInstructions\<close>. Its first statement reads \<^verbatim>\<open>this.config.agent.instructions\<close>,
  which throws a \<^verbatim>\<open>TypeError\<close> when \<^verbatim>\<open>agent\<close> is undefined.
\<close>

definition buildInstructions ::
  "profile \<Rightarrow> env \<Rightarrow> AgentConfig option \<Rightarrow> string \<Rightarrow> string \<Rightarrow> bool \<Rightarrow> exn + string" where
  "buildInstructions p r a lang v uiEnabled =
     (case a of
        None \<Rightarrow> Inl (TypeError r JsUndefined ''instructions'')
      | Some ac \<Rightarrow>
          (let i0 = agent_instructions ac;
               i1 = (let d = getLanguageDirective r lang in
                     if d \<noteq> [] then d @ newline @ newline @ i0 else i0);
               i2 = (case p of
                       Direct \<Rightarrow> i1
                     | InspectThenAct \<Rightarrow>
                         (if truthy (getGenderDirective v)
                          then the (getGenderDirective v) @ newline @ newline @ i1 else i1));
               i3 = (if uiEnabled then i2 @ newline @ newline @ env_uiDirective r else i2)
           in Inr i3))"

definition toolNames :: "profile \<Rightarrow> bool \<Rightarrow> string list" where
  "toolNames p uiEnabled =
     (if uiEnabled then
        (case p of Direct \<Rightarrow> [''execute_ui_action'']
         | InspectThenAct \<Rightarrow> [''get_ui_state'', ''execute_ui_action''])
      else [])"

text \<open>
  The constructor: merge with the defaults, build the instructions, create the tools and
  the agent. It has no check of its own; the result is \<open>Inl\<close> when a statement throws.
\<close>

definition construct :: "profile \<Rightarrow> env \<Rightarrow> AvenConfig \<Rightarrow> exn + aven" where
  "construct p r c =
     (let uiConfig = mergeUI p (c_ui c);
          lang = nullish (c_language c) ''en'';
          v = nullish (c_voice c) ''alloy''
      in case buildInstructions p r (c_agent c) lang v (enabled uiConfig) of
           Inl e \<Rightarrow> Inl e
         | Inr instructions \<Rightarrow>
            (case c_agent c of
               None \<Rightarrow> Inl (TypeError r JsUndefined ''name'')
             | Some ac \<Rightarrow>
                Inr \<lparr>config =
                       \<lparr>clientSecret = c_clientSecret c,
                        agentCfg = ac,
                        model = nullish (c_model c) ''gpt-4o-realtime-preview'',
                        voice = v,
                        language = lang,
                        autoGreet = nullish (c_autoGreet c) True,
                        greetingMessage = nullish (c_greetingMessage c) ''Hello!'',
                        debug = nullish (c_debug c) False,
                        doNotExecuteActions = nullish (c_doNotExecuteActions c) False,
                        ui = uiConfig\<rparr>,
                     profile = p,
                     agent = \<lparr>ra_name = agent_name ac, ra_instructions = instructions,
                              ra_tools = toolNames p (enabled uiConfig), ra_voice = v\<rparr>,
                     session = None,
                     status = StIdle,
                     conversationState = CsIdle,
                     error = None,
                     history = [],
                     messageIdCounter = 0,
                     actionIdCounter = 0,
                     currentDOM = None,
                     autoUpdateTimer = False,
                     sessionsCreated = 0,
                     pending = 0,
                     published = [],
                     sessionLog = [],
                     executed = []\<rparr>))"

section \<open>State, events and the two state machines\<close>

text \<open>
  \<^verbatim>\<open>emit\<close> as the instance's state sees it: the call is recorded in \<open>published\<close>. The
  callbacks it invokes are host code; \<open>emit_to\<close> in the event-bus section says which
  are called and in what order.
\<close>

definition emit :: "event \<Rightarrow> aven \<Rightarrow> aven" where
  "emit e s = s\<lparr>published := published s @ [e]\<rparr>"

definition isConnected :: "aven \<Rightarrow> bool" where
  "isConnected s = (status s = StConnected \<and> session s \<noteq> None)"

definition getState :: "aven \<Rightarrow> AvenState" where
  "getState s =
     \<lparr>s_status = status s,
      s_conversationState = conversationState s,
      s_error = error s,
      s_history = history s,
      s_isConnected = isConnected s,
      s_isAiSpeaking = (conversationState s = CsAiSpeaking),
      s_isUserSpeaking = (conversationState s = CsUserSpeaking)\<rparr>"

definition emitStateChange :: "aven \<Rightarrow> aven" where
  "emitStateChange s = emit (EvStateChange (getState s)) s"

definition setConversationState :: "ConversationState \<Rightarrow> aven \<Rightarrow> aven" where
  "setConversationState st s =
     (if conversationState s \<noteq> st then
        emitStateChange (emit (EvConversationStateChange st) (s\<lparr>conversationState := st\<rparr>))
      else s)"

definition setStatus :: "AvenStatus \<Rightarrow> aven \<Rightarrow> aven" where
  "setStatus st s =
     (if status s \<noteq> st then
        (let s1 = emitStateChange (emit (EvStatusChange st) (s\<lparr>status := st\<rparr>))
         in if st = StIdle \<or> st = StError then setConversationState CsIdle s1 else s1)
      else s)"

section \<open>The UI context\<close>

text \<open>
  What one call of \<^verbatim>\<open>captureDOM\<close> reads from the outside: the element's
  \<^verbatim>\<open>innerHTML\<close> at that moment, and what \<^verbatim>\<open>adaptiveD2Snap\<close> does with it (the
  serialized HTML, or a throw).
\<close>

record capture =
  c_html :: string
  c_snap :: "exn + string"

definition captureDOM :: "capture \<Rightarrow> string option" where
  "captureDOM cap = (case c_snap cap of Inr html \<Rightarrow> Some html | Inl e \<Rightarrow> Some (c_html cap))"

datatype dom_source = DomString string | DomElement Element

text \<open>\<^verbatim>\<open>sendDOMContext\<close> only logs, so \<^verbatim>\<open>updateDOM\<close> ends with the assignment.\<close>

definition updateDOM :: "capture \<Rightarrow> dom_source \<Rightarrow> aven \<Rightarrow> aven" where
  "updateDOM cap src s =
     (case src of
        DomString str \<Rightarrow> s\<lparr>currentDOM := Some str\<rparr>
      | DomElement el \<Rightarrow> s\<lparr>currentDOM := captureDOM cap\<rparr>)"

definition refreshDOM :: "capture \<Rightarrow> aven \<Rightarrow> aven" where
  "refreshDOM cap s =
     (if \<not> enabled (ui (config s)) then s
      else case rootElement (ui (config s)) of
             None \<Rightarrow> s
           | Some el \<Rightarrow> updateDOM cap (DomElement el) s)"

definition startAutoUpdate :: "aven \<Rightarrow> aven" where
  "startAutoUpdate s = (if autoUpdateTimer s then s else s\<lparr>autoUpdateTimer := True\<rparr>)"

definition stopAutoUpdate :: "aven \<Rightarrow> aven" where
  "stopAutoUpdate s = (if autoUpdateTimer s then s\<lparr>autoUpdateTimer := False\<rparr> else s)"

section \<open>connect, disconnect and the other public operations\<close>

definition transcriptionConfig :: "string \<Rightarrow> transcription" where
  "transcriptionConfig lang =
     (if isTranscriptionSupported lang
      then \<lparr>tr_model = ''gpt-4o-mini-transcribe'', tr_language = Some lang\<rparr>
      else \<lparr>tr_model = ''gpt-4o-mini-transcribe'', tr_language = None\<rparr>)"

definition callSession :: "session_call \<Rightarrow> aven \<Rightarrow> aven" where
  "callSession c s = s\<lparr>sessionLog := sessionLog s @ [c]\<rparr>"

text \<open>
  \<^verbatim>\<open>connect\<close> up to its first suspension, \<^verbatim>\<open>await this.session.connect(...)\<close>: the early
  return, the status change, the new session with its transcription request and its
  listeners, and the call of \<^verbatim>\<open>connect\<close> on it.
\<close>

definition connect :: "aven \<Rightarrow> aven" where
  "connect s =
     (if session s \<noteq> None then s
      else
        (let s1 = setStatus StConnecting s;
             s2 = s1\<lparr>error := None\<rparr>;
             h = sessionsCreated s2;
             s3 = callSession
                    (SessNew h (model (config s2)) (transcriptionConfig (language (config s2))))
                    (s2\<lparr>session := Some h, sessionsCreated := h + 1\<rparr>);
             s4 = callSession (SessConnect h (clientSecret (config s3))) s3
         in s4\<lparr>pending := pending s4 + 1\<rparr>))"

text \<open>The \<^verbatim>\<open>catch\<close> block of \<^verbatim>\<open>connect\<close>; it rethrows, so the thrown value is returned too.\<close>

definition connect_catch :: "exn \<Rightarrow> aven \<Rightarrow> exn option \<times> aven" where
  "connect_catch e s =
     (let errorMessage = (case e of JsError m \<Rightarrow> m | JsThrown \<Rightarrow> ''Failed to connect'');
          s1 = setStatus StError (s\<lparr>error := Some errorMessage\<rparr>)
      in (Some e, emit (EvError errorMessage) s1))"

definition greetingText :: "env \<Rightarrow> aven \<Rightarrow> string" where
  "greetingText r s =
     (let langGreeting = getLanguageGreeting (env_greetings r) (language (config s));
          languageName = getLanguageName r (language (config s));
          greeting =
            (if greetingMessage (config s) = ''Hello!''
             then ''[IMPORTANT: Respond in '' @ languageName @ '' only. Say your greeting in '' @
                  languageName @ ''.]'' @ newline @ newline @ langGreeting
             else ''[IMPORTANT: Respond in '' @ languageName @ '' only.]'' @ newline @ newline @
                  greetingMessage (config s))
      in if enabled (ui (config s)) \<and> truthy (currentDOM s)
         then greeting @ newline @ newline @
              ''[Current UI state for reference - do not read this aloud, just use it to understand the page:]'' @
              newline @ ''```html'' @ newline @ show_nullable (currentDOM s) @ newline @ ''```''
         else greeting)"

text \<open>The block of \<^verbatim>\<open>connect\<close> that initializes the UI context.\<close>

definition connect_ui_init :: "capture \<Rightarrow> aven \<Rightarrow> aven" where
  "connect_ui_init cap s =
     (if enabled (ui (config s))
      then (let r = refreshDOM cap s
            in if autoUpdate (ui (config r)) then startAutoUpdate r else r)
      else s)"

text \<open>
  The block of \<^verbatim>\<open>connect\<close> that sends the greeting. It goes through the field
  \<^verbatim>\<open>this.session\<close>, which is null if \<^verbatim>\<open>disconnect\<close> ran while \<^verbatim>\<open>connect\<close> was
  suspended; the \<^verbatim>\<open>TypeError\<close> lands in the \<^verbatim>\<open>catch\<close> block.
\<close>

definition connect_greet :: "env \<Rightarrow> aven \<Rightarrow> exn option \<times> aven" where
  "connect_greet r s =
     (if autoGreet (config s)
      then (case session s of
              None \<Rightarrow> connect_catch (TypeError r JsNull ''sendMessage'') s
            | Some h \<Rightarrow> (None, callSession (SessSend h (greetingText r s)) s))
      else (None, s))"

text \<open>
  The rest of \<^verbatim>\<open>connect\<close>, run when the session's \<^verbatim>\<open>connect\<close> settles: \<open>result\<close> is
  \<open>None\<close> when it resolved and the thrown value when it rejected.
\<close>

definition connect_settled ::
  "env \<Rightarrow> capture \<Rightarrow> exn option \<Rightarrow> aven \<Rightarrow> exn option \<times> aven" where
  "connect_settled r cap result s0 =
     (let s = s0\<lparr>pending := pending s0 - 1\<rparr> in
      case result of
        Some e \<Rightarrow> connect_catch e s
      | None \<Rightarrow>
          connect_greet r
            (connect_ui_init cap (emit EvConnected (setStatus StConnected s))))"

definition disconnect :: "aven \<Rightarrow> aven" where
  "disconnect s =
     (let s1 = (case session s of
                  None \<Rightarrow> s
                | Some h \<Rightarrow> (callSession (SessClose h) s)\<lparr>session := None\<rparr>);
          s2 = s1\<lparr>history := []\<rparr>;
          s3 = setStatus StIdle s2;
          s4 = setConversationState CsIdle s3;
          s5 = emit EvDisconnected s4
      in emit (EvHistoryChange []) s5)"

definition interrupt :: "aven \<Rightarrow> aven" where
  "interrupt s = (case session s of None \<Rightarrow> s | Some h \<Rightarrow> callSession (SessInterrupt h) s)"

definition sendMessage :: "string \<Rightarrow> aven \<Rightarrow> aven" where
  "sendMessage m s = (case session s of None \<Rightarrow> s | Some h \<Rightarrow> callSession (SessSend h m) s)"

definition toggle :: "aven \<Rightarrow> aven" where
  "toggle s =
     (if isConnected s then disconnect s
      else if status s = StIdle \<or> status s = StError then connect s
      else s)"

text \<open>\<^verbatim>\<open>removeAllListeners\<close>, the last call of \<^verbatim>\<open>destroy\<close>, acts on the registry only.\<close>

definition destroy :: "aven \<Rightarrow> aven" where
  "destroy s = disconnect (stopAutoUpdate s)"

section \<open>Transcript reconciliation\<close>

text \<open>\<^verbatim>\<open>item.content?.[0]\<close>: undefined when there is no array or the array is empty.\<close>

definition firstContent :: "RealtimeItem \<Rightarrow> raw_content option" where
  "firstContent item =
     (case icontent item of None \<Rightarrow> None | Some [] \<Rightarrow> None | Some (c # cs) \<Rightarrow> Some c)"

definition classify :: "raw_content \<Rightarrow> MessageContent option" where
  "classify c =
     (if ctype c = ''input_text'' \<or> ctype c = ''output_text''
      then Some (Text (or_else (ctext c) []))
      else if ctype c = ''input_audio'' \<or> ctype c = ''output_audio''
      then Some (Audio (or_null (ctranscript c)))
      else None)"

text \<open>
  One round of the loop over \<^verbatim>\<open>rawHistory\<close>: the list built so far and the counter
  \<^verbatim>\<open>_messageIdCounter\<close>, which \<^verbatim>\<open>++\<close> advances when the item has no usable id.
\<close>

definition parseItem :: "nat \<Rightarrow> Message list \<times> nat \<Rightarrow> RealtimeItem \<Rightarrow> Message list \<times> nat" where
  "parseItem now acc item =
     (if itype item = ''message'' then
        (case firstContent item of
           None \<Rightarrow> acc
         | Some c \<Rightarrow>
             (case classify c of
                None \<Rightarrow> acc
              | Some messageContent \<Rightarrow>
                  (let n = (if truthy (itemId item) then snd acc else snd acc + 1);
                       i = (if truthy (itemId item) then or_else (itemId item) []
                            else ''msg_'' @ string_of_nat n)
                   in (fst acc @
                         [\<lparr>mid = i, mrole = irole item, mcontent = messageContent,
                           mraw = item, mtimestamp = now\<rparr>],
                       n))))
      else acc)"

definition handleHistoryUpdate :: "nat \<Rightarrow> RealtimeItem list \<Rightarrow> aven \<Rightarrow> aven" where
  "handleHistoryUpdate now rawHistory s =
     (let parsed = foldl (parseItem now) ([], messageIdCounter s) rawHistory;
          newHistory = fst parsed;
          previousLength = length (history s);
          s1 = s\<lparr>history := newHistory, messageIdCounter := snd parsed\<rparr>;
          s2 = (if length newHistory > previousLength
                then foldl (\<lambda>t msg. emit (EvMessage msg) t) s1 (drop previousLength newHistory)
                else s1)
      in emitStateChange (emit (EvHistoryChange newHistory) s2))"

section \<open>Executing actions\<close>

record exec_result =
  r_success :: bool
  r_result :: "js_value option"
  r_error :: "string option"

text \<open>
  \<^verbatim>\<open>executeAction\<close>. The parameter \<open>run\<close> is what \<^verbatim>\<open>new Function(code)\<close> followed by
  the call of the new function does for a code string: the value returned, or the value
  thrown (a syntax error is thrown by \<^verbatim>\<open>new Function\<close>, inside the same \<^verbatim>\<open>try\<close>).
  The result is a sum as for every operation that could throw: \<open>Inl\<close> would be a throw
  reaching the caller.
\<close>

definition executeAction ::
  "(string \<Rightarrow> exn + js_value) \<Rightarrow> UIAction \<Rightarrow> aven \<Rightarrow> exn + exec_result \<times> aven" where
  "executeAction run action s =
     (if \<not> truthy (outputCode action)
      then Inr (\<lparr>r_success = True, r_result = Some JsNull, r_error = None\<rparr>, s)
      else
        (let code = or_else (outputCode action) [];
             s1 = s\<lparr>executed := executed s @ [code]\<rparr>
         in case run code of
              Inr v \<Rightarrow> Inr (\<lparr>r_success = True, r_result = Some v, r_error = None\<rparr>, s1)
            | Inl e \<Rightarrow>
                Inr (\<lparr>r_success = False, r_result = None,
                      r_error = Some (case e of JsError m \<Rightarrow> m | JsThrown \<Rightarrow> ''Unknown error'')\<rparr>,
                     s1)))"

record tool_params =
  p_outputText :: string
  p_outputCode :: "string option"
  p_actionDescription :: "string option"
  p_targetElement :: "string option"
  p_actionType :: "UIActionType option"

definition newAction :: "nat \<Rightarrow> tool_params \<Rightarrow> aven \<Rightarrow> UIAction \<times> aven" where
  "newAction now params s =
     (let n = actionIdCounter s + 1
      in (\<lparr>aid = ''action_'' @ string_of_nat n,
           outputText = p_outputText params,
           outputCode = p_outputCode params,
           actionDescription = p_actionDescription params,
           targetElement = p_targetElement params,
           actionType = p_actionType params,
           atimestamp = now\<rparr>,
          s\<lparr>actionIdCounter := n\<rparr>))"

text \<open>\<^verbatim>\<open>Aven.createUIActionTool\<close>, the function \<^verbatim>\<open>execute\<close>: the tool of the direct profile.\<close>

definition execute_direct ::
  "(string \<Rightarrow> exn + js_value) \<Rightarrow> nat \<Rightarrow> tool_params \<Rightarrow> aven \<Rightarrow> exn + string \<times> aven" where
  "execute_direct run now params s =
     (let (action, s1) = newAction now params s;
          s2 = emit (EvAction action) s1
      in if \<not> doNotExecuteActions (config s2) \<and> truthy (outputCode action)
         then (case executeAction run action s2 of
                 Inl e \<Rightarrow> Inl e
               | Inr (result, s3) \<Rightarrow> Inr (p_outputText params, s3))
         else Inr (p_outputText params, s2))"

text \<open>
  \<^verbatim>\<open>Atticus.createUIActionTool\<close>, the function \<^verbatim>\<open>execute\<close>: the action tool of the
  inspect-then-act profile, with a capture before the action and one after its success.
\<close>

definition execute_inspect ::
  "(string \<Rightarrow> exn + js_value) \<Rightarrow> capture \<Rightarrow> capture \<Rightarrow> nat \<Rightarrow> tool_params \<Rightarrow> aven
     \<Rightarrow> exn + string \<times> aven" where
  "execute_inspect run cap1 cap2 now params s =
     (let s0 = (if enabled (ui (config s)) \<and> rootElement (ui (config s)) \<noteq> None
                then refreshDOM cap1 s else s);
          (action, s1) = newAction now params s0;
          s2 = emit (EvAction action) s1
      in if \<not> doNotExecuteActions (config s2) \<and> truthy (outputCode action)
         then (case executeAction run action s2 of
                 Inl e \<Rightarrow> Inl e
               | Inr (result, s3) \<Rightarrow>
                   (if r_success result
                    then (let s4 = refreshDOM cap2 s3
                          in Inr (p_outputText params @ newline @ newline @
                                  ''[Action executed successfully. Current UI state:]'' @ newline @
                                  show_nullable (currentDOM s4), s4))
                    else Inr (p_outputText params @ newline @ newline @
                              ''[Action failed: '' @ show_nullable (r_error result) @ '']'', s3)))
         else Inr (p_outputText params, s2))"

definition execute_ui_action ::
  "(string \<Rightarrow> exn + js_value) \<Rightarrow> capture \<Rightarrow> capture \<Rightarrow> nat \<Rightarrow> tool_params \<Rightarrow> aven
     \<Rightarrow> exn + string \<times> aven" where
  "execute_ui_action run cap1 cap2 now params s =
     (case profile s of
        Direct \<Rightarrow> execute_direct run now params s
      | InspectThenAct \<Rightarrow> execute_inspect run cap1 cap2 now params s)"

text \<open>\<^verbatim>\<open>Atticus.createGetUIStateTool\<close>, the function \<^verbatim>\<open>execute\<close>.\<close>

definition get_ui_state :: "capture \<Rightarrow> aven \<Rightarrow> string \<times> aven" where
  "get_ui_state cap s =
     (let s1 = (if enabled (ui (config s)) \<and> rootElement (ui (config s)) \<noteq> None
                then refreshDOM cap s else s)
      in (''[Current UI state:]'' @ newline @ ''```html'' @ newline @
          show_nullable (currentDOM s1) @ newline @ ''```'', s1))"

section \<open>The listeners on the session\<close>

text \<open>
  What the session reports as an error: an \<^verbatim>\<open>Error\<close> with its message, another object
  with its JSON text, or any other value with its \<^verbatim>\<open>String(...)\<close> text.
\<close>

datatype session_error = ErrorInstance string | ErrorObject string | ErrorOther string

definition on_error :: "session_error \<Rightarrow> aven \<Rightarrow> aven" where
  "on_error e s =
     (let errorMessage =
            (case e of
               ErrorInstance m \<Rightarrow> m
             | ErrorObject j \<Rightarrow> j
             | ErrorOther t \<Rightarrow> or_else (Some t) ''An error occurred'')
      in emit (EvError errorMessage) (s\<lparr>error := Some errorMessage\<rparr>))"

definition on_agent_start :: "aven \<Rightarrow> aven" where
  "on_agent_start s =
     (case profile s of
        Direct \<Rightarrow> emit EvAgentStart (setConversationState CsAiSpeaking s)
      | InspectThenAct \<Rightarrow> emit EvAgentStart s)"

definition on_agent_end :: "aven \<Rightarrow> aven" where
  "on_agent_end s =
     (case profile s of
        Direct \<Rightarrow> emit EvAgentEnd (setConversationState CsUserTurn s)
      | InspectThenAct \<Rightarrow> emit EvAgentEnd s)"

text \<open>Only \<^verbatim>\<open>Atticus\<close> listens to \<^verbatim>\<open>audio_start\<close> and \<^verbatim>\<open>audio_stopped\<close>.\<close>

definition on_audio_start :: "aven \<Rightarrow> aven" where
  "on_audio_start s =
     (case profile s of
        Direct \<Rightarrow> s
      | InspectThenAct \<Rightarrow> emit EvAudioStart (setConversationState CsAiSpeaking s))"

definition on_audio_stopped :: "aven \<Rightarrow> aven" where
  "on_audio_stopped s =
     (case profile s of
        Direct \<Rightarrow> s
      | InspectThenAct \<Rightarrow> emit EvAudioEnd (setConversationState CsUserTurn s))"

definition on_audio :: "aven \<Rightarrow> aven" where
  "on_audio s = emit EvUserAudio (setConversationState CsUserSpeaking s)"

section \<open>Runs of an instance\<close>

text \<open>
  One step of an instance's life: a public operation called by the host, the settling of
  a suspended \<^verbatim>\<open>connect\<close>, a tick of the auto-update timer, a tool call by the remote
  agent, or an event of a session. Each carries what it reads from the outside.
\<close>

datatype op =
    OpConnect
  | OpConnectSettled capture "exn option"
  | OpDisconnect
  | OpInterrupt
  | OpSendMessage string
  | OpToggle
  | OpDestroy
  | OpUpdateDOM capture dom_source
  | OpRefreshDOM capture
  | OpStartAutoUpdate
  | OpStopAutoUpdate
  | OpExecuteAction "string \<Rightarrow> exn + js_value" UIAction
  | OpTimer capture
  | ToolGetUIState capture
  | ToolExecuteUIAction "string \<Rightarrow> exn + js_value" capture capture nat tool_params
  | SessHistoryUpdated nat "RealtimeItem list"
  | SessError session_error
  | SessAgentStart
  | SessAgentEnd
  | SessAudioStart
  | SessAudioStopped
  | SessAudio

text \<open>
  A suspended \<^verbatim>\<open>connect\<close> settles only if one is suspended; the timer ticks only while
  armed; a session event or a tool call needs a session to have been created, since
  \<^verbatim>\<open>setupSessionListeners\<close> runs in \<^verbatim>\<open>connect\<close>, and a tool call needs the tool to be
  among the agent's. Nothing in the source removes the listeners from a session or
  makes them look at \<^verbatim>\<open>status\<close>, so an event is handled whenever it arrives.
\<close>

definition step :: "env \<Rightarrow> op \<Rightarrow> aven \<Rightarrow> aven" where
  "step r x s =
     (case x of
        OpConnect \<Rightarrow> connect s
      | OpConnectSettled cap result \<Rightarrow>
          (if pending s = 0 then s else snd (connect_settled r cap result s))
      | OpDisconnect \<Rightarrow> disconnect s
      | OpInterrupt \<Rightarrow> interrupt s
      | OpSendMessage m \<Rightarrow> sendMessage m s
      | OpToggle \<Rightarrow> toggle s
      | OpDestroy \<Rightarrow> destroy s
      | OpUpdateDOM cap src \<Rightarrow> updateDOM cap src s
      | OpRefreshDOM cap \<Rightarrow> refreshDOM cap s
      | OpStartAutoUpdate \<Rightarrow> startAutoUpdate s
      | OpStopAutoUpdate \<Rightarrow> stopAutoUpdate s
      | OpExecuteAction run action \<Rightarrow>
          (case executeAction run action s of Inl e \<Rightarrow> s | Inr (res, t) \<Rightarrow> t)
      | OpTimer cap \<Rightarrow> (if autoUpdateTimer s then refreshDOM cap s else s)
      | ToolGetUIState cap \<Rightarrow>
          (if sessionsCreated s = 0 \<or> ''get_ui_state'' \<notin> set (ra_tools (agent s))
           then s else snd (get_ui_state cap s))
      | ToolExecuteUIAction run cap1 cap2 now params \<Rightarrow>
          (if sessionsCreated s = 0 \<or> ''execute_ui_action'' \<notin> set (ra_tools (agent s))
           then s
           else (case execute_ui_action run cap1 cap2 now params s of
                   Inl e \<Rightarrow> s | Inr (res, t) \<Rightarrow> t))
      | SessHistoryUpdated now raw \<Rightarrow>
          (if sessionsCreated s = 0 then s else handleHistoryUpdate now raw s)
      | SessError e \<Rightarrow> (if sessionsCreated s = 0 then s else on_error e s)
      | SessAgentStart \<Rightarrow> (if sessionsCreated s = 0 then s else on_agent_start s)
      | SessAgentEnd \<Rightarrow> (if sessionsCreated s = 0 then s else on_agent_end s)
      | SessAudioStart \<Rightarrow> (if sessionsCreated s = 0 then s else on_audio_start s)
      | SessAudioStopped \<Rightarrow> (if sessionsCreated s = 0 then s else on_audio_stopped s)
      | SessAudio \<Rightarrow> (if sessionsCreated s = 0 then s else on_audio s))"

definition run_ops :: "env \<Rightarrow> op list \<Rightarrow> aven \<Rightarrow> aven" where
  "run_ops r ops s = foldl (\<lambda>t x. step r x t) s ops"

section \<open>The event bus\<close>

text \<open>
  The registry is \<^verbatim>\<open>listeners: Map<string, Set<Function>>\<close>. A function object in it is
  a callback of the host, named by a number, or a wrapper made by \<^verbatim>\<open>once\<close>, which
  carries its serial number and the event and callback it closes over.
\<close>

datatype fn = Host nat | Wrapper nat string nat

text \<open>
  What a callback of the host does when called: calls of the instance's registry
  methods, calls of public operations that make the instance emit an event
  (\<open>Publish\<close>; \<^verbatim>\<open>emit\<close> itself is private), and possibly a throw, which ends it.
\<close>

datatype cmd =
    Throw
  | CallOn string nat
  | CallOff string nat
  | CallOnce string nat
  | CallRemoveAll
  | Publish string

text \<open>
  A \<^verbatim>\<open>Set\<close> is its list of entries in insertion order; \<^verbatim>\<open>delete\<close> empties an entry
  and \<^verbatim>\<open>add\<close> appends one unless the value is present, as ECMAScript specifies it, so
  that a \<^verbatim>\<open>forEach\<close> under way sees both. The sets live in a store, since
  \<^verbatim>\<open>removeAllListeners\<close> clears the map while a \<^verbatim>\<open>forEach\<close> may still run on a set.
  \<open>calls\<close> lists every call of a function object with the event being emitted, and
  \<open>console\<close> the events for which \<^verbatim>\<open>emit\<close> reported a throwing listener.
\<close>

record bus =
  listeners :: "string \<rightharpoonup> nat"
  sets :: "nat \<Rightarrow> fn option list"
  nsets :: nat
  nwrappers :: nat
  calls :: "(fn \<times> string) list"
  console :: "string list"

definition new_bus :: bus where
  "new_bus =
     \<lparr>listeners = Map.empty, sets = (\<lambda>a. []), nsets = 0, nwrappers = 0, calls = [],
      console = []\<rparr>"

definition set_add :: "fn \<Rightarrow> fn option list \<Rightarrow> fn option list" where
  "set_add f es = (if Some f \<in> set es then es else es @ [Some f])"

definition set_delete :: "fn \<Rightarrow> fn option list \<Rightarrow> fn option list" where
  "set_delete f es = map (\<lambda>e. if e = Some f then None else e) es"

definition on :: "string \<Rightarrow> fn \<Rightarrow> bus \<Rightarrow> bus" where
  "on ev f b =
     (case listeners b ev of
        None \<Rightarrow>
          b\<lparr>listeners := (listeners b)(ev \<mapsto> nsets b),
            sets := (sets b)(nsets b := set_add f []),
            nsets := nsets b + 1\<rparr>
      | Some a \<Rightarrow> b\<lparr>sets := (sets b)(a := set_add f (sets b a))\<rparr>)"

definition off :: "string \<Rightarrow> fn \<Rightarrow> bus \<Rightarrow> bus" where
  "off ev f b =
     (case listeners b ev of
        None \<Rightarrow> b
      | Some a \<Rightarrow> b\<lparr>sets := (sets b)(a := set_delete f (sets b a))\<rparr>)"

definition once :: "string \<Rightarrow> nat \<Rightarrow> bus \<Rightarrow> bus" where
  "once ev h b = on ev (Wrapper (nwrappers b) ev h) (b\<lparr>nwrappers := nwrappers b + 1\<rparr>)"

definition removeAllListeners :: "bus \<Rightarrow> bus" where
  "removeAllListeners b = b\<lparr>listeners := Map.empty\<rparr>"

text \<open>
  \<^verbatim>\<open>emit\<close> as the registry sees it (\<open>emit_to\<close>), the \<^verbatim>\<open>forEach\<close> over the event's set
  from an index on, the call of one function object and the run of a host callback's
  body. A callback may emit again and may subscribe while it is called, so the loop
  need not end: the first argument bounds the depth of the calls, and the result is
  \<open>None\<close> when the bound is reached. The flag returned by a call says whether it threw;
  \<open>forEach\<close> is the \<^verbatim>\<open>try\<close> and \<^verbatim>\<open>catch\<close> around it. \<open>beh\<close> gives each host callback its
  body.
\<close>

function (sequential) emit_to :: "nat \<Rightarrow> (nat \<Rightarrow> cmd list) \<Rightarrow> string \<Rightarrow> bus \<Rightarrow> bus option"
  and forEach :: "nat \<Rightarrow> (nat \<Rightarrow> cmd list) \<Rightarrow> string \<Rightarrow> nat \<Rightarrow> nat \<Rightarrow> bus \<Rightarrow> bus option"
  and call :: "nat \<Rightarrow> (nat \<Rightarrow> cmd list) \<Rightarrow> fn \<Rightarrow> string \<Rightarrow> bus \<Rightarrow> (bool \<times> bus) option"
  and exec :: "nat \<Rightarrow> (nat \<Rightarrow> cmd list) \<Rightarrow> cmd list \<Rightarrow> bus \<Rightarrow> (bool \<times> bus) option"
where
  "emit_to 0 beh ev b = None"
| "emit_to (Suc n) beh ev b =
     (case listeners b ev of
        None \<Rightarrow> Some b
      | Some a \<Rightarrow> forEach n beh ev a 0 b)"
| "forEach 0 beh ev a i b = None"
| "forEach (Suc n) beh ev a i b =
     (if i < length (sets b a) then
        (case sets b a ! i of
           None \<Rightarrow> forEach n beh ev a (Suc i) b
         | Some f \<Rightarrow>
             (case call n beh f ev b of
                None \<Rightarrow> None
              | Some (threw, b1) \<Rightarrow>
                  forEach n beh ev a (Suc i)
                    (if threw then b1\<lparr>console := console b1 @ [ev]\<rparr> else b1)))
      else Some b)"
| "call 0 beh f ev b = None"
| "call (Suc n) beh f ev b =
     (let b1 = b\<lparr>calls := calls b @ [(f, ev)]\<rparr>
      in case f of
           Host h \<Rightarrow> exec n beh (beh h) b1
         | Wrapper w wev h \<Rightarrow> call n beh (Host h) ev (off wev (Wrapper w wev h) b1))"
| "exec 0 beh cs b = None"
| "exec (Suc n) beh [] b = Some (False, b)"
| "exec (Suc n) beh (c # cs) b =
     (case c of
        Throw \<Rightarrow> Some (True, b)
      | CallOn ev h \<Rightarrow> exec n beh cs (on ev (Host h) b)
      | CallOff ev h \<Rightarrow> exec n beh cs (off ev (Host h) b)
      | CallOnce ev h \<Rightarrow> exec n beh cs (once ev h b)
      | CallRemoveAll \<Rightarrow> exec n beh cs (removeAllListeners b)
      | Publish ev \<Rightarrow>
          (case emit_to n beh ev b of
             None \<Rightarrow> None
           | Some b1 \<Rightarrow> exec n beh cs b1))"

  by pat_completeness auto

termination
  by (relation "measure (\<lambda>x. case x of
        Inl (Inl (n, r)) \<Rightarrow> n
      | Inl (Inr (n, r)) \<Rightarrow> n
      | Inr (Inl (n, r)) \<Rightarrow> n
      | Inr (Inr (n, r)) \<Rightarrow> n)") auto

text \<open>Emitting the same event \<open>m\<close> times in a row.\<close>

fun emit_times :: "nat \<Rightarrow> (nat \<Rightarrow> cmd list) \<Rightarrow> nat \<Rightarrow> string \<Rightarrow> bus \<Rightarrow> bus option" where
  "emit_times n beh 0 ev b = Some b"
| "emit_times n beh (Suc m) ev b =
     (case emit_to n beh ev b of
        None \<Rightarrow> None
      | Some b1 \<Rightarrow> emit_times n beh m ev b1)"

section \<open>What one emit is meant to do\<close>

text \<open>The values of a set's entries that have not been emptied, in insertion order.\<close>

fun live :: "'a option list \<Rightarrow> 'a list" where
  "live [] = []"
| "live (None # es) = live es"
| "live (Some f # es) = f # live es"

text \<open>
  The reading of \<^verbatim>\<open>emit\<close> in the specification: take the subscribers as they are when
  the emit starts and call each of them once, in order; when a call throws, report it
  and go on with the next.
\<close>

fun call_each :: "nat \<Rightarrow> (nat \<Rightarrow> cmd list) \<Rightarrow> string \<Rightarrow> fn list \<Rightarrow> bus \<Rightarrow> bus option" where
  "call_each n beh ev [] b = Some b"
| "call_each n beh ev (f # fs) b =
     (case call n beh f ev b of
        None \<Rightarrow> None
      | Some (threw, b1) \<Rightarrow>
          call_each n beh ev fs (if threw then b1\<lparr>console := console b1 @ [ev]\<rparr> else b1))"

text \<open>
  An emit is steady when every subscriber it calls, from entry \<open>i\<close> of the set at \<open>a\<close>
  on and for \<open>k\<close> entries, returns or throws within depth \<open>n\<close> and leaves the entries
  after its own as they were. It may change the entries before its own, its own entry,
  the sets of other events and the map.
\<close>

fun steady :: "nat \<Rightarrow> nat \<Rightarrow> (nat \<Rightarrow> cmd list) \<Rightarrow> string \<Rightarrow> nat \<Rightarrow> nat \<Rightarrow> bus \<Rightarrow> bool" where
  "steady 0 n beh ev a i b = True"
| "steady (Suc k) n beh ev a i b =
     (case sets b a ! i of
        None \<Rightarrow> steady k n beh ev a (Suc i) b
      | Some f \<Rightarrow>
          (case call n beh f ev b of
             None \<Rightarrow> False
           | Some (threw, b1) \<Rightarrow>
               drop (Suc i) (sets b1 a) = drop (Suc i) (sets b a) \<and>
               steady k n beh ev a (Suc i)
                 (if threw then b1\<lparr>console := console b1 @ [ev]\<rparr> else b1)))"

text \<open>No set holds a function object twice.\<close>

definition no_repeats :: "bus \<Rightarrow> bool" where
  "no_repeats b = (\<forall>a. distinct (live (sets b a)))"

text \<open>
  A body is quiet for an event when it neither emits nor subscribes or unsubscribes
  anything for that event; it may throw, clear the registry and manage the
  subscriptions of other events.
\<close>

fun quiet :: "string \<Rightarrow> cmd list \<Rightarrow> bool" where
  "quiet ev [] = True"
| "quiet ev (Throw # cs) = quiet ev cs"
| "quiet ev (CallOn e h # cs) = (e \<noteq> ev \<and> quiet ev cs)"
| "quiet ev (CallOff e h # cs) = (e \<noteq> ev \<and> quiet ev cs)"
| "quiet ev (CallOnce e h # cs) = (e \<noteq> ev \<and> quiet ev cs)"
| "quiet ev (CallRemoveAll # cs) = quiet ev cs"
| "quiet ev (Publish e # cs) = False"

text \<open>Every set in the map has been created: its address is below \<open>nsets\<close>.\<close>

definition allocated :: "bus \<Rightarrow> bool" where
  "allocated b = (\<forall>e a. listeners b e = Some a \<longrightarrow> a < nsets b)"

text \<open>Subscribing the callbacks \<open>hs\<close> to an event with \<^verbatim>\<open>on\<close>, in this order.\<close>

definition subscribe_all :: "string \<Rightarrow> nat list \<Rightarrow> bus \<Rightarrow> bus" where
  "subscribe_all ev hs b = foldl (\<lambda>t h. on ev (Host h) t) b hs"

text \<open>
  The set at address \<open>a\<close> has been created and belongs to the event \<open>ev\<close> and to no
  other event.
\<close>

definition owns :: "string \<Rightarrow> nat \<Rightarrow> bus \<Rightarrow> bool" where
  "owns ev a b = (a < nsets b \<and> allocated b \<and> (\<forall>e. listeners b e = Some a \<longrightarrow> e = ev))"

section \<open>The subscribers around a once registration\<close>

text \<open>
  A body is tame for an event when it leaves the map and this event's subscriptions
  alone and emits no other event: it may throw and manage the subscriptions of other
  events, and, when \<open>p\<close> holds, emit this event again. What follows a throw never runs.
\<close>

fun tame :: "bool \<Rightarrow> string \<Rightarrow> cmd list \<Rightarrow> bool" where
  "tame p ev [] = True"
| "tame p ev (Throw # cs) = True"
| "tame p ev (CallOn e h # cs) = (e \<noteq> ev \<and> tame p ev cs)"
| "tame p ev (CallOff e h # cs) = (e \<noteq> ev \<and> tame p ev cs)"
| "tame p ev (CallOnce e h # cs) = (e \<noteq> ev \<and> tame p ev cs)"
| "tame p ev (CallRemoveAll # cs) = False"
| "tame p ev (Publish e # cs) = (p \<and> e = ev \<and> tame p ev cs)"

fun is_wrapper :: "fn \<Rightarrow> bool" where
  "is_wrapper (Host h) = False"
| "is_wrapper (Wrapper w e h) = True"

text \<open>
  A subscriber of an event is ready when it is a callback subscribed with \<^verbatim>\<open>on\<close> whose
  body is tame and does not emit, or a wrapper made by \<^verbatim>\<open>once\<close> for this event whose
  callback has a tame body, which may emit the event again.
\<close>

fun ready_fn :: "(nat \<Rightarrow> cmd list) \<Rightarrow> string \<Rightarrow> fn \<Rightarrow> bool" where
  "ready_fn beh ev (Host g) = tame False ev (beh g)"
| "ready_fn beh ev (Wrapper w e h) = (e = ev \<and> tame True ev (beh h))"

definition ready :: "(nat \<Rightarrow> cmd list) \<Rightarrow> string \<Rightarrow> fn option list \<Rightarrow> bool" where
  "ready beh ev es = list_all (ready_fn beh ev) (live es)"

text \<open>The entries of an event's set, none when the map has no set for it.\<close>

definition entries :: "bus \<Rightarrow> string \<Rightarrow> fn option list" where
  "entries b ev = (case listeners b ev of None \<Rightarrow> [] | Some a \<Rightarrow> sets b a)"

text \<open>The wrappers among the values of a set's entries.\<close>

definition wrappers :: "fn option list \<Rightarrow> fn list" where
  "wrappers es = filter is_wrapper (live es)"

text \<open>An entry once its wrapper, if it holds one, has unsubscribed.\<close>

fun strip :: "fn option \<Rightarrow> fn option" where
  "strip None = None"
| "strip (Some (Host h)) = Some (Host h)"
| "strip (Some (Wrapper w e h)) = None"

text \<open>
  The calls of a function object for an event so far, plus one while it is still in the
  set at \<open>a\<close>.
\<close>

definition score :: "string \<Rightarrow> nat \<Rightarrow> fn \<Rightarrow> bus \<Rightarrow> nat" where
  "score ev a f b = count_list (calls b) (f, ev) + (if Some f \<in> set (sets b a) then 1 else 0)"

text \<open>The event has its own set, at \<open>a\<close>, and every subscriber in it is ready.\<close>

definition settled :: "(nat \<Rightarrow> cmd list) \<Rightarrow> string \<Rightarrow> nat \<Rightarrow> bus \<Rightarrow> bool" where
  "settled beh ev a b = (listeners b ev = Some a \<and> owns ev a b \<and> ready beh ev (sets b a))"

text \<open>
  The \<^verbatim>\<open>forEach\<close> from entry \<open>i\<close> on ends, with every wrapper unsubscribed and the score
  of every wrapper as before.
\<close>

definition finishes :: "(nat \<Rightarrow> cmd list) \<Rightarrow> string \<Rightarrow> nat \<Rightarrow> nat \<Rightarrow> bus \<Rightarrow> bool" where
  "finishes beh ev a i b =
     (\<exists>n b'. forEach n beh ev a i b = Some b' \<and> settled beh ev a b' \<and>
        sets b' a = map strip (sets b a) \<and>
        (\<forall>f. is_wrapper f \<longrightarrow> score ev a f b' = score ev a f b))"

text \<open>Every set in the map has been created, and no two events share a set.\<close>

definition tidy :: "bus \<Rightarrow> bool" where
  "tidy b = (allocated b \<and>
     (\<forall>e e' a. listeners b e = Some a \<longrightarrow> listeners b e' = Some a \<longrightarrow> e = e'))"

section \<open>A concrete instance\<close>

text \<open>
  The configuration of the README's UI example, with the defaults everywhere else, and
  the instance each class builds from it. In the surroundings of the examples the UI
  directive's text and the greetings table are left empty, nothing is inherited, and
  the engine's message names the value and the property.
\<close>

definition example_env :: env where
  "example_env =
     \<lparr>env_uiDirective = [],
      env_greetings = Map.empty,
      env_inherited = Map.empty,
      env_typeError =
        (\<lambda>v property.
           ''Cannot read properties of '' @
           (case v of JsNull \<Rightarrow> ''null'' | JsUndefined \<Rightarrow> ''undefined'' | JsValue x \<Rightarrow> x) @
           '' (reading '' @ property @ '')'')\<rparr>"

definition example_config :: AvenConfig where
  "example_config =
     \<lparr>c_clientSecret = Some ''ek_test'',
      c_agent = Some \<lparr>agent_name = ''Assistant'',
                      agent_instructions = ''You are a helpful assistant.''\<rparr>,
      c_language = None, c_model = None, c_voice = None, c_autoGreet = None,
      c_greetingMessage = None, c_debug = None, c_doNotExecuteActions = None,
      c_ui = Some \<lparr>ui_enabled = True, ui_rootElement = Some (Element 0),
                   ui_d2SnapOptions = None, ui_autoUpdate = None,
                   ui_autoUpdateInterval = None\<rparr>\<rparr>"

definition example_instance :: "profile \<Rightarrow> aven" where
  "example_instance p = projr (construct p example_env example_config)"

definition example_capture :: capture where
  "example_capture = \<lparr>c_html = ''<button id=go>Go</button>'', c_snap = Inr ''<button>Go</button>''\<rparr>"

definition example_params :: tool_params where
  "example_params =
     \<lparr>p_outputText = ''Clicking the button'',
      p_outputCode = Some ''document.getElementById(1).click()'',
      p_actionDescription = None, p_targetElement = None, p_actionType = Some Click\<rparr>"

definition failing_run :: "string \<Rightarrow> exn + js_value" where
  "failing_run code = Inl (JsError ''boom'')"

section \<open>Snapshots of the raw transcript\<close>

text \<open>
  An item that the reconciler keeps: a message-kind item whose first content entry
  exists and is of one of the four kinds \<open>classify\<close> knows.
\<close>

definition recognized :: "RealtimeItem \<Rightarrow> bool" where
  "recognized item =
     (itype item = ''message'' \<and>
      (case firstContent item of None \<Rightarrow> False | Some c \<Rightarrow> classify c \<noteq> None))"

text \<open>Each snapshot is the one before it with at least one item appended.\<close>

fun extension_chain :: "'a list \<Rightarrow> 'a list list \<Rightarrow> bool" where
  "extension_chain prev [] = True"
| "extension_chain prev (r # rs) =
     (length prev < length r \<and> take (length prev) r = prev \<and> extension_chain r rs)"

text \<open>The session delivers the snapshots one after the other, each at its own time.\<close>

definition reconcile :: "(nat \<times> RealtimeItem list) list \<Rightarrow> aven \<Rightarrow> aven" where
  "reconcile snaps s = foldl (\<lambda>t (now, raw). handleHistoryUpdate now raw t) s snaps"

definition text_item :: "string \<Rightarrow> string \<Rightarrow> RealtimeItem" where
  "text_item i t =
     \<lparr>itype = ''message'', itemId = Some i, irole = ''user'',
      icontent = Some [\<lparr>ctype = ''input_text'', ctext = Some t, ctranscript = None\<rparr>]\<rparr>"

definition image_item :: RealtimeItem where
  "image_item =
     \<lparr>itype = ''message'', itemId = Some ''item_9'', irole = ''user'',
      icontent = Some [\<lparr>ctype = ''input_image'', ctext = None, ctranscript = None\<rparr>]\<rparr>"

definition example_snapshots :: "(nat \<times> RealtimeItem list) list" where
  "example_snapshots =
     [(1, [text_item ''item_1'' ''hello'']),
      (2, [text_item ''item_1'' ''hello'', image_item, text_item ''item_2'' ''again''])]"

section \<open>Runs in which turn signals arrive on a live connection\<close>

definition is_turn_signal :: "op \<Rightarrow> bool" where
  "is_turn_signal x =
     (case x of
        SessAgentStart \<Rightarrow> True
      | SessAgentEnd \<Rightarrow> True
      | SessAudioStart \<Rightarrow> True
      | SessAudioStopped \<Rightarrow> True
      | SessAudio \<Rightarrow> True
      | _ \<Rightarrow> False)"

text \<open>
  A run is timely when each turn signal of a session arrives while the instance is
  connecting or connected.
\<close>

fun timely :: "env \<Rightarrow> op list \<Rightarrow> aven \<Rightarrow> bool" where
  "timely r [] s = True"
| "timely r (x # xs) s =
     ((if is_turn_signal x then status s = StConnecting \<or> status s = StConnected else True)
      \<and> timely r xs (step r x s))"

definition quiet_when_down :: "aven \<Rightarrow> bool" where
  "quiet_when_down s =
     (if status s = StIdle \<or> status s = StError then conversationState s = CsIdle else True)"

definition example_run :: "op list" where
  "example_run =
     [OpConnect, OpConnectSettled example_capture None, SessAgentStart, OpDisconnect]"

section \<open>Example callbacks\<close>

text \<open>
  Callback 1 throws; callback 2 subscribes callback 7 to another event and then clears
  the registry; callback 4 makes the instance emit \<^verbatim>\<open>disconnected\<close> again (as a call
  of \<^verbatim>\<open>disconnect\<close> does) and then throws; callback 5 unsubscribes callback 3 from
  \<^verbatim>\<open>error\<close> and subscribes it again; callback 6 does the same to itself; every other
  callback just returns.
\<close>

definition example_beh :: "nat \<Rightarrow> cmd list" where
  "example_beh h =
     (if h = 1 then [Throw]
      else if h = 2 then [CallOn ''message'' 7, CallRemoveAll]
      else if h = 4 then [Publish ''disconnected'', Throw]
      else if h = 5 then [CallOff ''error'' 3, CallOn ''error'' 3]
      else if h = 6 then [CallOff ''error'' 6, CallOn ''error'' 6]
      else [])"

section \<open>What each state change leaves alone\<close>

lemma emit_frame [simp]:
  "config (emit e s) = config s" "profile (emit e s) = profile s" "agent (emit e s) = agent s"
  "session (emit e s) = session s" "status (emit e s) = status s"
  "conversationState (emit e s) = conversationState s" "error (emit e s) = error s"
  "history (emit e s) = history s" "messageIdCounter (emit e s) = messageIdCounter s"
  "actionIdCounter (emit e s) = actionIdCounter s" "currentDOM (emit e s) = currentDOM s"
  "autoUpdateTimer (emit e s) = autoUpdateTimer s"
  "sessionsCreated (emit e s) = sessionsCreated s"
  "pending (emit e s) = pending s" "sessionLog (emit e s) = sessionLog s"
  "executed (emit e s) = executed s" "published (emit e s) = published s @ [e]"
  by (simp_all add: emit_def)

lemma emitStateChange_frame [simp]:
  "config (emitStateChange s) = config s" "profile (emitStateChange s) = profile s"
  "agent (emitStateChange s) = agent s"
  "session (emitStateChange s) = session s" "status (emitStateChange s) = status s"
  "conversationState (emitStateChange s) = conversationState s"
  "error (emitStateChange s) = error s"
  "history (emitStateChange s) = history s"
  "messageIdCounter (emitStateChange s) = messageIdCounter s"
  "actionIdCounter (emitStateChange s) = actionIdCounter s"
  "currentDOM (emitStateChange s) = currentDOM s"
  "autoUpdateTimer (emitStateChange s) = autoUpdateTimer s"
  "sessionsCreated (emitStateChange s) = sessionsCreated s"
  "pending (emitStateChange s) = pending s" "sessionLog (emitStateChange s) = sessionLog s"
  "executed (emitStateChange s) = executed s"
  "published (emitStateChange s) = published s @ [EvStateChange (getState s)]"
  by (simp_all add: emitStateChange_def)

lemma setConversationState_frame [simp]:
  "config (setConversationState c s) = config s"
  "profile (setConversationState c s) = profile s"
  "agent (setConversationState c s) = agent s"
  "session (setConversationState c s) = session s"
  "status (setConversationState c s) = status s"
  "conversationState (setConversationState c s) = c"
  "error (setConversationState c s) = error s"
  "history (setConversationState c s) = history s"
  "messageIdCounter (setConversationState c s) = messageIdCounter s"
  "actionIdCounter (setConversationState c s) = actionIdCounter s"
  "currentDOM (setConversationState c s) = currentDOM s"
  "autoUpdateTimer (setConversationState c s) = autoUpdateTimer s"
  "sessionsCreated (setConversationState c s) = sessionsCreated s"
  "pending (setConversationState c s) = pending s"
  "sessionLog (setConversationState c s) = sessionLog s"
  "executed (setConversationState c s) = executed s"
  by (simp_all add: setConversationState_def)

lemma setStatus_frame [simp]:
  "config (setStatus c s) = config s" "profile (setStatus c s) = profile s"
  "agent (setStatus c s) = agent s"
  "session (setStatus c s) = session s" "status (setStatus c s) = c"
  "error (setStatus c s) = error s"
  "history (setStatus c s) = history s"
  "messageIdCounter (setStatus c s) = messageIdCounter s"
  "actionIdCounter (setStatus c s) = actionIdCounter s"
  "currentDOM (setStatus c s) = currentDOM s"
  "autoUpdateTimer (setStatus c s) = autoUpdateTimer s"
  "sessionsCreated (setStatus c s) = sessionsCreated s"
  "pending (setStatus c s) = pending s" "sessionLog (setStatus c s) = sessionLog s"
  "executed (setStatus c s) = executed s"
  by (simp_all add: setStatus_def Let_def)

lemma callSession_frame [simp]:
  "config (callSession e s) = config s" "profile (callSession e s) = profile s"
  "agent (callSession e s) = agent s"
  "session (callSession e s) = session s" "status (callSession e s) = status s"
  "conversationState (callSession e s) = conversationState s"
  "error (callSession e s) = error s"
  "history (callSession e s) = history s"
  "messageIdCounter (callSession e s) = messageIdCounter s"
  "actionIdCounter (callSession e s) = actionIdCounter s"
  "currentDOM (callSession e s) = currentDOM s"
  "autoUpdateTimer (callSession e s) = autoUpdateTimer s"
  "sessionsCreated (callSession e s) = sessionsCreated s"
  "pending (callSession e s) = pending s" "sessionLog (callSession e s) = sessionLog s @ [e]"
  "executed (callSession e s) = executed s" "published (callSession e s) = published s"
  by (simp_all add: callSession_def)

lemma setStatus_same [simp]: "status s = c \<Longrightarrow> setStatus c s = s"
  by (simp add: setStatus_def)

lemma setConversationState_same [simp]:
  "conversationState s = c \<Longrightarrow> setConversationState c s = s"
  by (simp add: setConversationState_def)

section \<open>The transcription request\<close>

text \<open>
  Claim C9. When \<^verbatim>\<open>connect\<close> runs without a session handle, the instance creates one
  session, with the configured model and a transcription request that always names the
  transcription model and carries the configured language code exactly when the code
  is in \<^verbatim>\<open>SUPPORTED_TRANSCRIPTION_LANGUAGES\<close>; for any other code the language field
  is absent.
\<close>

theorem connect_transcription_request:
  "sessionLog (connect (s\<lparr>session := None\<rparr>)) =
     sessionLog s @
       [SessNew (sessionsCreated s) (model (config s))
          \<lparr>tr_model = ''gpt-4o-mini-transcribe'',
           tr_language =
             (if language (config s) \<in> set SUPPORTED_TRANSCRIPTION_LANGUAGES
              then Some (language (config s)) else None)\<rparr>,
        SessConnect (sessionsCreated s) (clientSecret (config s))]"
  by (simp add: connect_def Let_def transcriptionConfig_def isTranscriptionSupported_def
        del: set_simps)

text \<open>Hindi is in the set; Bengali has a name and a greeting but is not.\<close>

lemma transcription_examples:
  "tr_language (transcriptionConfig ''hi'') = Some ''hi''"
  "tr_language (transcriptionConfig ''bn'') = None"
  "tr_model (transcriptionConfig ''bn'') = ''gpt-4o-mini-transcribe''"
  by (simp_all add: transcriptionConfig_def isTranscriptionSupported_def
        SUPPORTED_TRANSCRIPTION_LANGUAGES_def)

section \<open>connect on a connected instance\<close>

text \<open>
  Claim C10. Called while a session handle exists, \<^verbatim>\<open>connect\<close> returns at once: the
  whole state is as before, so \<^verbatim>\<open>status\<close>, \<^verbatim>\<open>conversationState\<close>, \<^verbatim>\<open>error\<close> and
  \<^verbatim>\<open>history\<close> are unchanged, nothing is published and no call is made on the session.
\<close>

theorem connect_with_session_is_noop:
  "connect (s\<lparr>session := Some h\<rparr>) = s\<lparr>session := Some h\<rparr>"
  by (simp add: connect_def)

section \<open>disconnect\<close>

text \<open>
  Claim C8. \<^verbatim>\<open>disconnect\<close> is idempotent. After one call the instance is idle in both
  state machines, its history is empty and its session handle is gone; a second call
  leaves every field as the first left it, makes no call on a session (there is none to
  close, and \<^verbatim>\<open>close\<close> is the only call \<^verbatim>\<open>disconnect\<close> makes that could throw), and only
  publishes \<^verbatim>\<open>disconnected\<close> and the empty \<^verbatim>\<open>historyChange\<close> once more.
\<close>

theorem disconnect_idempotent:
  "disconnect (disconnect s) =
     (disconnect s)\<lparr>published := published (disconnect s) @ [EvDisconnected, EvHistoryChange []]\<rparr>
   \<and> status (disconnect s) = StIdle
   \<and> conversationState (disconnect s) = CsIdle
   \<and> history (disconnect s) = []
   \<and> session (disconnect s) = None
   \<and> sessionLog (disconnect (disconnect s)) = sessionLog (disconnect s)"
proof -
  let ?t = "disconnect s"
  have f: "status ?t = StIdle" "conversationState ?t = CsIdle" "history ?t = []"
    "session ?t = None"
    by (simp_all add: disconnect_def Let_def split: option.splits)
  have "disconnect ?t = ?t\<lparr>published := published ?t @ [EvDisconnected, EvHistoryChange []]\<rparr>"
    using f by (simp add: disconnect_def [of ?t] Let_def emit_def)
  with f show ?thesis by simp
qed

section \<open>Construction from a partial configuration\<close>

lemma nullish_simps [simp]: "nullish None d = d" "nullish (Some x) d = x"
  by (simp_all add: nullish_def)

lemma construct_example: "construct p example_env example_config = Inr (example_instance p)"
  by (simp add: example_instance_def construct_def buildInstructions_def example_config_def
        Let_def)

text \<open>
  Claim C3 says that construction fails when the credential or the persona is absent.
  The constructor checks neither. Without \<^verbatim>\<open>clientSecret\<close> it builds an instance all
  the same: the README's configuration with the credential removed is accepted.
\<close>

theorem construct_without_credential_counterexample:
  "c_clientSecret (example_config\<lparr>c_clientSecret := None\<rparr>) = None
   \<and> \<not> isl (construct Direct example_env (example_config\<lparr>c_clientSecret := None\<rparr>))"
  by (simp add: construct_def buildInstructions_def example_config_def Let_def)

text \<open>
  Claim C3, amended. Construction fails exactly when the agent persona is absent, with
  the \<^verbatim>\<open>TypeError\<close> of reading \<^verbatim>\<open>agent.instructions\<close>; otherwise it yields an idle
  instance without a session that keeps the credential as given, absent or not.
\<close>

theorem construct_fails_iff_no_agent:
  "(case construct p r c of
      Inl e \<Rightarrow> c_agent c = None \<and> e = TypeError r JsUndefined ''instructions''
    | Inr s \<Rightarrow> c_agent c \<noteq> None \<and> clientSecret (config s) = c_clientSecret c
               \<and> status s = StIdle \<and> session s = None)"
  by (cases "c_agent c") (simp_all add: construct_def buildInstructions_def Let_def)

section \<open>executeAction and the action tool\<close>

text \<open>
  Claim C5. For an action whose \<^verbatim>\<open>outputCode\<close> is null or empty, \<^verbatim>\<open>executeAction\<close>
  returns success with the result \<^verbatim>\<open>null\<close> and the state untouched, so nothing was
  run; when running the code throws, it returns failure with the thrown error's message
  (\<^verbatim>\<open>Unknown error\<close> for a thrown value that is no \<^verbatim>\<open>Error\<close>); and in no case does a
  throw reach the caller.
\<close>

theorem executeAction_contract:
  "(\<not> truthy (outputCode a) \<longrightarrow>
      executeAction run a s =
        Inr (\<lparr>r_success = True, r_result = Some JsNull, r_error = None\<rparr>, s))
   \<and> (truthy (outputCode a) \<and> run (or_else (outputCode a) []) = Inl e \<longrightarrow>
      map_sum id fst (executeAction run a s) =
        Inr \<lparr>r_success = False, r_result = None,
             r_error = Some (case e of JsError m \<Rightarrow> m | JsThrown \<Rightarrow> ''Unknown error'')\<rparr>)
   \<and> \<not> isl (executeAction run a s)"
  by (auto simp: executeAction_def Let_def split: sum.splits)

theorem executeAction_contract_witness:
  "executeAction failing_run
      (fst (newAction 0 (example_params\<lparr>p_outputCode := None\<rparr>) (example_instance Direct)))
      (example_instance Direct) =
     Inr (\<lparr>r_success = True, r_result = Some JsNull, r_error = None\<rparr>, example_instance Direct)
   \<and> map_sum id fst
       (executeAction failing_run (fst (newAction 0 example_params (example_instance Direct)))
          (example_instance Direct)) =
     Inr \<lparr>r_success = False, r_result = None, r_error = Some ''boom''\<rparr>"
  using
    executeAction_contract
      [of "fst (newAction 0 (example_params\<lparr>p_outputCode := None\<rparr>) (example_instance Direct))"
          failing_run "example_instance Direct" "JsError ''boom''"]
    executeAction_contract
      [of "fst (newAction 0 example_params (example_instance Direct))"
          failing_run "example_instance Direct" "JsError ''boom''"]
  by (simp add: newAction_def example_params_def truthy_def failing_run_def Let_def)

text \<open>
  Claim C4 says that the direct profile's tool returns the explanation annotated with
  the failure reason when the automatic execution fails. \<^verbatim>\<open>Aven\<close>'s tool only logs the
  failure: with auto-execution on, code supplied and the code throwing, the agent gets
  the bare explanation.
\<close>

theorem execute_direct_failure_counterexample:
  "\<not> doNotExecuteActions (config (example_instance Direct))
   \<and> truthy (p_outputCode example_params)
   \<and> map_sum id (r_success \<circ> fst)
       (executeAction failing_run (fst (newAction 0 example_params (example_instance Direct)))
          (example_instance Direct)) = Inr False
   \<and> map_sum id fst (execute_direct failing_run 0 example_params (example_instance Direct)) =
       Inr ''Clicking the button''"
  by (simp add: example_instance_def construct_def buildInstructions_def example_config_def
        Let_def execute_direct_def newAction_def executeAction_def example_params_def
        truthy_def failing_run_def emit_def)

text \<open>
  Claim C4, amended. When auto-execution is enabled, code was supplied and running it
  fails, the direct profile's tool returns the bare explanation text, and the
  inspect-then-act profile's tool returns the explanation text, an empty line and
  \<^verbatim>\<open>[Action failed: reason]\<close>.
\<close>

theorem execute_on_failure:
  assumes "\<not> doNotExecuteActions (config s)" and "truthy (p_outputCode params)"
    and "run (or_else (p_outputCode params) []) = Inl e"
  shows "map_sum id fst (execute_direct run now params s) = Inr (p_outputText params)
    \<and> map_sum id fst (execute_inspect run cap1 cap2 now params s) =
        Inr (p_outputText params @ newline @ newline @ ''[Action failed: '' @
             (case e of JsError m \<Rightarrow> m | JsThrown \<Rightarrow> ''Unknown error'') @ '']'')"
  using assms
  by (auto simp: execute_direct_def execute_inspect_def newAction_def executeAction_def Let_def
        refreshDOM_def updateDOM_def show_nullable_def
        split: sum.splits prod.splits option.splits)

theorem execute_on_failure_witness:
  "map_sum id fst (execute_direct failing_run 0 example_params (example_instance Direct)) =
     Inr ''Clicking the button''
   \<and> map_sum id fst
       (execute_inspect failing_run example_capture example_capture 0 example_params
          (example_instance InspectThenAct)) =
     Inr (''Clicking the button'' @ newline @ newline @ ''[Action failed: boom]'')"
proof -
  have a: "\<not> doNotExecuteActions (config (example_instance p))" for p
    by (simp add: example_instance_def construct_def buildInstructions_def example_config_def
          Let_def)
  have b: "truthy (p_outputCode example_params)"
    by (simp add: example_params_def truthy_def)
  have c: "failing_run (or_else (p_outputCode example_params) []) = Inl (JsError ''boom'')"
    by (simp add: failing_run_def)
  have d: "map_sum id fst (execute_direct failing_run 0 example_params (example_instance Direct))
      = Inr ''Clicking the button''"
    using a [of Direct] b c
      execute_on_failure [where s = "example_instance Direct" and params = example_params
        and run = failing_run and e = "JsError ''boom''" and now = 0
        and ?cap1.0 = example_capture and ?cap2.0 = example_capture]
    by (simp add: example_params_def)
  have "map_sum id fst
       (execute_inspect failing_run example_capture example_capture 0 example_params
          (example_instance InspectThenAct)) =
     Inr (''Clicking the button'' @ newline @ newline @ ''[Action failed: boom]'')"
    using a [of InspectThenAct] b c
      execute_on_failure [where s = "example_instance InspectThenAct"
        and params = example_params
        and run = failing_run and e = "JsError ''boom''" and now = 0
        and ?cap1.0 = example_capture and ?cap2.0 = example_capture]
    by (simp add: example_params_def)
  with d show ?thesis by simp
qed

section \<open>Reconciling snapshots\<close>

lemma parse_fold:
  "map mraw (fst (foldl (parseItem now) acc raw)) = map mraw (fst acc) @ filter recognized raw"
proof (induction raw arbitrary: acc)
  case Nil
  then show ?case by simp
next
  case (Cons item raw)
  show ?case
    by (simp add: Cons.IH) (simp add: parseItem_def recognized_def Let_def split: option.splits)
qed

lemma emit_messages:
  "foldl (\<lambda>t msg. emit (EvMessage msg) t) s ms = s\<lparr>published := published s @ map EvMessage ms\<rparr>"
  by (induction ms arbitrary: s) (simp_all add: emit_def)

lemma handleHistoryUpdate_eq:
  "handleHistoryUpdate now raw s =
     (let parsed = foldl (parseItem now) ([], messageIdCounter s) raw;
          t = s\<lparr>history := fst parsed, messageIdCounter := snd parsed\<rparr>
      in t\<lparr>published := published s @ map EvMessage (drop (length (history s)) (fst parsed)) @
            [EvHistoryChange (fst parsed), EvStateChange (getState t)]\<rparr>)"
proof -
  define parsed where "parsed = foldl (parseItem now) ([], messageIdCounter s) raw"
  define t where "t = s\<lparr>history := fst parsed, messageIdCounter := snd parsed\<rparr>"
  have m: "(if length (history s) < length (fst parsed)
            then foldl (\<lambda>t msg. emit (EvMessage msg) t) t (drop (length (history s)) (fst parsed))
            else t) =
           t\<lparr>published := published s @ map EvMessage (drop (length (history s)) (fst parsed))\<rparr>"
    by (simp add: emit_messages t_def)
  have "handleHistoryUpdate now raw s =
      emitStateChange (emit (EvHistoryChange (fst parsed))
        (t\<lparr>published := published s @ map EvMessage (drop (length (history s)) (fst parsed))\<rparr>))"
    unfolding handleHistoryUpdate_def Let_def parsed_def [symmetric] t_def [symmetric] m ..
  also have "\<dots> = t\<lparr>published := published s @ map EvMessage (drop (length (history s)) (fst parsed)) @
            [EvHistoryChange (fst parsed), EvStateChange (getState t)]\<rparr>"
    by (simp add: emitStateChange_def emit_def getState_def isConnected_def)
  finally show ?thesis
    unfolding Let_def parsed_def [symmetric] t_def [symmetric] .
qed

lemma handleHistoryUpdate_extension:
  assumes "length (history s) = length (filter recognized prev)"
  shows "let t = handleHistoryUpdate now (prev @ ext) s;
             new = drop (length (history s)) (history t)
         in map mraw (history t) = filter recognized (prev @ ext)
          \<and> map mraw new = filter recognized ext
          \<and> published t = published s @ map EvMessage new @
               [EvHistoryChange (history t), EvStateChange (getState t)]"
proof -
  let ?p = "foldl (parseItem now) ([], messageIdCounter s) (prev @ ext)"
  have h: "map mraw (fst ?p) = filter recognized prev @ filter recognized ext"
    using parse_fold [of now "([], messageIdCounter s)" "prev @ ext"] by simp
  have "map mraw (drop (length (history s)) (fst ?p)) = drop (length (history s)) (map mraw (fst ?p))"
    by (simp add: drop_map)
  also have "\<dots> = filter recognized ext" using h assms by simp
  finally have n: "map mraw (drop (length (history s)) (fst ?p)) = filter recognized ext" .
  show ?thesis
    using h n by (simp add: handleHistoryUpdate_eq Let_def getState_def isConnected_def)
qed


lemma reconcile_Cons:
  "reconcile ((now, raw) # snaps) s = reconcile snaps (handleHistoryUpdate now raw s)"
  by (simp add: reconcile_def)

lemma reconcile_Nil: "reconcile [] s = s"
  by (simp add: reconcile_def)

text \<open>
  Claim C1, amended. Let the history be the one reconciled from a snapshot \<open>prev\<close>
  (initially both are empty) and let each delivered snapshot extend the one before it by
  at least one item. Then after each snapshot the history holds, in order, one message
  for each kept item of the raw list: a message-kind item whose first content entry
  exists and is of a recognized kind. Its length is the number of those items; items of
  another type, without content or with an unrecognized first entry leave no trace.
  Processing the snapshot publishes one \<^verbatim>\<open>message\<close> event for each kept item among the
  appended ones, in list order, then one \<^verbatim>\<open>historyChange\<close> with the full new history,
  then one \<^verbatim>\<open>stateChange\<close>, and nothing else.
\<close>

theorem reconcile_extension_chain:
  assumes "length (history s) = length (filter recognized prev)"
    and "extension_chain prev (map snd snaps)"
    and "k < length snaps"
  shows "let before = reconcile (take k snaps) s;
             after = reconcile (take (Suc k) snaps) s;
             old = (if k = 0 then prev else snd (snaps ! (k - 1)));
             raw = snd (snaps ! k);
             new = drop (length (history before)) (history after)
         in length (history after) = length (filter recognized raw)
          \<and> map mraw (history after) = filter recognized raw
          \<and> map mraw new = filter recognized (drop (length old) raw)
          \<and> published after = published before @ map EvMessage new @
               [EvHistoryChange (history after), EvStateChange (getState after)]"
  using assms
proof (induction k arbitrary: s prev snaps)
  case 0
  then obtain now raw rest where sn: "snaps = (now, raw) # rest"
    by (cases snaps) auto
  with 0 have r: "raw = prev @ drop (length prev) raw"
    by (metis append_take_drop_id extension_chain.simps(2) list.simps(9) snd_conv)
  have m: "map mraw (history (handleHistoryUpdate now raw s)) = filter recognized raw"
    using handleHistoryUpdate_extension [OF 0(1), of now "drop (length prev) raw"] r
    by (simp add: Let_def)
  have h: "length (history (handleHistoryUpdate now raw s)) = length (filter recognized raw)"
    by (metis m length_map)
  show ?case
    using handleHistoryUpdate_extension [OF 0(1), of now "drop (length prev) raw"] r h
    by (simp add: sn reconcile_Cons reconcile_Nil Let_def)
next
  case (Suc k)
  then obtain now raw rest where sn: "snaps = (now, raw) # rest"
    by (cases snaps) auto
  with Suc.prems have r: "raw = prev @ drop (length prev) raw"
    by (metis append_take_drop_id extension_chain.simps(2) list.simps(9) snd_conv)
  have m: "map mraw (history (handleHistoryUpdate now raw s)) = filter recognized raw"
    using handleHistoryUpdate_extension [OF Suc.prems(1), of now "drop (length prev) raw"] r
    by (simp add: Let_def)
  have h: "length (history (handleHistoryUpdate now raw s)) = length (filter recognized raw)"
    by (metis m length_map)
  have c: "extension_chain raw (map snd rest)" using Suc.prems(2) sn by simp
  have k: "k < length rest" using Suc.prems(3) sn by simp
  have o: "(if Suc k = 0 then prev else snd (snaps ! (Suc k - 1)))
         = (if k = 0 then raw else snd (rest ! (k - 1)))"
    by (cases k) (simp_all add: sn)
  show ?case
    using Suc.IH [OF h c k] o
    by (simp add: sn reconcile_Cons Let_def)
qed

theorem reconcile_extension_chain_witness:
  "extension_chain [] (map snd example_snapshots)
   \<and> map mraw (history (reconcile example_snapshots (example_instance Direct))) =
       [text_item ''item_1'' ''hello'', text_item ''item_2'' ''again'']"
proof -
  have a: "length (history (example_instance Direct)) = length (filter recognized [])"
    by (simp add: example_instance_def construct_def buildInstructions_def example_config_def
          Let_def)
  have b: "extension_chain [] (map snd example_snapshots)"
    by (simp add: example_snapshots_def text_item_def image_item_def)
  have f: "filter recognized (snd (example_snapshots ! 1)) = [text_item ''item_1'' ''hello'', text_item ''item_2'' ''again'']"
    by (simp add: example_snapshots_def text_item_def image_item_def recognized_def
        firstContent_def classify_def)
  from reconcile_extension_chain [OF a b, of 1] f b show ?thesis
    by (simp add: Let_def example_snapshots_def)
qed

text \<open>
  Claim C1 counts every message-kind item. A first snapshot holding one message whose
  only content entry is an image extends the empty transcript, has one message-kind
  item, and leaves the history empty.
\<close>

theorem history_length_counterexample:
  "extension_chain [] [[image_item]]
   \<and> length (history (handleHistoryUpdate 0 [image_item] (example_instance Direct))) = 0
   \<and> length (filter (\<lambda>item. itype item = ''message'') [image_item]) = 1"
  by (simp add: handleHistoryUpdate_eq Let_def parseItem_def image_item_def firstContent_def
        classify_def)


section \<open>The conversation state while the connection is down\<close>

lemma setStatus_conv:
  "conversationState (setStatus c s) =
     (if status s \<noteq> c \<and> (c = StIdle \<or> c = StError) then CsIdle else conversationState s)"
  by (simp add: setStatus_def Let_def)

lemma quiet_setStatus: "quiet_when_down s \<Longrightarrow> quiet_when_down (setStatus c s)"
  by (auto simp: quiet_when_down_def setStatus_conv split: if_splits)

lemma quiet_emit [simp]: "quiet_when_down (emit e s) = quiet_when_down s"
  by (simp add: quiet_when_down_def)

lemma quiet_callSession [simp]: "quiet_when_down (callSession e s) = quiet_when_down s"
  by (simp add: quiet_when_down_def)

lemma quiet_connect: "quiet_when_down s \<Longrightarrow> quiet_when_down (connect s)"
  by (simp add: connect_def Let_def quiet_when_down_def setStatus_conv)

lemma quiet_disconnect: "quiet_when_down (disconnect s)"
  by (simp add: disconnect_def Let_def quiet_when_down_def split: option.splits)

lemma quiet_refreshDOM [simp]: "quiet_when_down (refreshDOM cap s) = quiet_when_down s"
  by (simp add: refreshDOM_def updateDOM_def quiet_when_down_def split: option.splits)

lemma quiet_updateDOM [simp]: "quiet_when_down (updateDOM cap src s) = quiet_when_down s"
  by (simp add: updateDOM_def quiet_when_down_def split: dom_source.splits)

lemma quiet_start [simp]: "quiet_when_down (startAutoUpdate s) = quiet_when_down s"
  by (simp add: startAutoUpdate_def quiet_when_down_def)

lemma quiet_stop [simp]: "quiet_when_down (stopAutoUpdate s) = quiet_when_down s"
  by (simp add: stopAutoUpdate_def quiet_when_down_def)

lemma quiet_connect_catch:
  "quiet_when_down s \<Longrightarrow> quiet_when_down (snd (connect_catch e s))"
proof -
  assume q: "quiet_when_down s"
  have "quiet_when_down (s\<lparr>error := Some m\<rparr>)" for m
    using q by (simp add: quiet_when_down_def)
  then show ?thesis
    by (simp add: connect_catch_def Let_def quiet_setStatus)
qed

lemma quiet_connect_ui_init [simp]:
  "quiet_when_down (connect_ui_init cap s) = quiet_when_down s"
  by (simp add: connect_ui_init_def Let_def)

lemma quiet_connect_greet:
  "quiet_when_down s \<Longrightarrow> quiet_when_down (snd (connect_greet g s))"
  by (simp add: connect_greet_def quiet_connect_catch split: option.splits)

lemma quiet_connect_settled:
  assumes "quiet_when_down s"
  shows "quiet_when_down (snd (connect_settled g cap r s))"
proof -
  have q0: "quiet_when_down (s\<lparr>pending := pending s - 1\<rparr>)"
    using assms by (simp add: quiet_when_down_def)
  show ?thesis
    using quiet_connect_catch [OF q0] quiet_setStatus [OF q0, of StConnected]
    by (cases r) (simp_all add: connect_settled_def Let_def quiet_connect_greet)
qed

lemma quiet_handleHistoryUpdate [simp]:
  "quiet_when_down (handleHistoryUpdate now raw s) = quiet_when_down s"
  by (simp add: handleHistoryUpdate_eq Let_def quiet_when_down_def)

lemma quiet_executeAction:
  "executeAction run a s = Inr (r, t) \<Longrightarrow> quiet_when_down t = quiet_when_down s"
  by (auto simp: executeAction_def Let_def quiet_when_down_def split: if_splits sum.splits)

lemma quiet_execute_ui_action:
  "execute_ui_action run c1 c2 now params s = Inr (r, t) \<Longrightarrow> quiet_when_down t = quiet_when_down s"
  by (auto simp: execute_ui_action_def execute_direct_def execute_inspect_def newAction_def
        executeAction_def Let_def quiet_when_down_def refreshDOM_def updateDOM_def
        split: if_splits sum.splits profile.splits prod.splits option.splits)

lemma quiet_get_ui_state [simp]: "quiet_when_down (snd (get_ui_state cap s)) = quiet_when_down s"
  by (simp add: get_ui_state_def Let_def)

lemma quiet_on_error [simp]: "quiet_when_down (on_error e s) = quiet_when_down s"
  by (simp add: on_error_def Let_def quiet_when_down_def)

lemma quiet_turn:
  "status s = StConnecting \<or> status s = StConnected \<Longrightarrow>
   quiet_when_down (on_agent_start s) \<and> quiet_when_down (on_agent_end s) \<and>
   quiet_when_down (on_audio_start s) \<and> quiet_when_down (on_audio_stopped s) \<and>
   quiet_when_down (on_audio s)"
  by (auto simp: on_agent_start_def on_agent_end_def on_audio_start_def on_audio_stopped_def
        on_audio_def quiet_when_down_def split: profile.splits)

lemma quiet_step:
  assumes "quiet_when_down s"
    and "if is_turn_signal x then status s = StConnecting \<or> status s = StConnected else True"
  shows "quiet_when_down (step g x s)"
proof (cases x)
  case (OpExecuteAction run a)
  then show ?thesis using assms(1)
    by (auto simp: step_def dest: quiet_executeAction split: sum.splits)
next
  case (ToolExecuteUIAction run c1 c2 now params)
  then show ?thesis using assms(1)
    by (auto simp: step_def dest: quiet_execute_ui_action split: sum.splits)
qed (use assms quiet_turn [of s] in \<open>auto simp: step_def is_turn_signal_def quiet_connect
      quiet_connect_settled quiet_disconnect toggle_def destroy_def interrupt_def
      sendMessage_def split: option.splits\<close>)


lemma run_ops_simps [simp]:
  "run_ops g [] s = s" "run_ops g (x # xs) s = run_ops g xs (step g x s)"
  by (simp_all add: run_ops_def)

lemma quiet_run_ops:
  "quiet_when_down s \<Longrightarrow> timely g ops s \<Longrightarrow> quiet_when_down (run_ops g ops s)"
  by (induction ops arbitrary: s) (simp_all add: quiet_step)

lemma timely_take: "timely g ops s \<Longrightarrow> timely g (take k ops) s"
proof (induction ops arbitrary: s k)
  case Nil
  then show ?case by simp
next
  case (Cons x xs)
  then show ?case by (cases k) simp_all
qed

lemma quiet_construct: "construct p u c = Inr s \<Longrightarrow> quiet_when_down s"
  by (auto simp: construct_def Let_def quiet_when_down_def split: sum.splits option.splits)

text \<open>
  Claim C2, amended. Take any run of a newly constructed instance (public operations,
  settlings of \<^verbatim>\<open>connect\<close>, timer ticks, tool calls and session events, in any order)
  in which each turn signal of a session (\<^verbatim>\<open>agent_start\<close>, \<^verbatim>\<open>agent_end\<close>,
  \<^verbatim>\<open>audio_start\<close>, \<^verbatim>\<open>audio_stopped\<close>, \<^verbatim>\<open>audio\<close>) arrives while the status is
  \<^verbatim>\<open>connecting\<close> or \<^verbatim>\<open>connected\<close>. After every step of the run, if the status is
  \<^verbatim>\<open>idle\<close> or \<^verbatim>\<open>error\<close> then the conversation state is \<^verbatim>\<open>idle\<close>.
\<close>

theorem idle_when_down:
  assumes "construct p r c = Inr s0" and "timely r ops s0"
  shows "let t = run_ops r (take k ops) s0
         in status t = StIdle \<or> status t = StError \<longrightarrow> conversationState t = CsIdle"
  using quiet_run_ops [OF quiet_construct [OF assms(1)] timely_take [OF assms(2), of k]]
  by (auto simp: quiet_when_down_def Let_def)

lemma example_fields [simp]:
  "status (example_instance p) = StIdle" "conversationState (example_instance p) = CsIdle"
  "session (example_instance p) = None" "sessionsCreated (example_instance p) = 0"
  "pending (example_instance p) = 0" "profile (example_instance p) = p"
  "autoGreet (config (example_instance p))" "enabled (ui (config (example_instance p)))"
  "history (example_instance p) = []"
  by (simp_all add: example_instance_def construct_def buildInstructions_def example_config_def
          Let_def mergeUI_def)

lemma connect_fields:
  "session s = None \<Longrightarrow> status (connect s) = StConnecting"
  "session s = None \<Longrightarrow> session (connect s) = Some (sessionsCreated s)"
  "session s = None \<Longrightarrow> sessionsCreated (connect s) = Suc (sessionsCreated s)"
  "session s = None \<Longrightarrow> pending (connect s) = Suc (pending s)"
  "profile (connect s) = profile s" "config (connect s) = config s"
  by (simp_all add: connect_def Let_def)

lemma connect_settled_ok_fields:
  "session s \<noteq> None \<Longrightarrow> status (snd (connect_settled g cap None s)) = StConnected"
  "sessionsCreated (snd (connect_settled g cap None s)) = sessionsCreated s"
  "profile (snd (connect_settled g cap None s)) = profile s"
  "session s \<noteq> None \<Longrightarrow> session (snd (connect_settled g cap None s)) = session s"
  by (auto simp: connect_settled_def connect_greet_def connect_ui_init_def Let_def
        refreshDOM_def updateDOM_def startAutoUpdate_def connect_catch_def split: option.splits)

lemma example_steps:
  "status (step g OpConnect (example_instance Direct)) = StConnecting"
  "status (run_ops g (take 2 example_run) (example_instance Direct)) = StConnected"
  "status (run_ops g example_run (example_instance Direct)) = StIdle"
  "sessionsCreated (run_ops g example_run (example_instance Direct)) = 1"
  by (simp_all add: example_run_def step_def connect_fields connect_settled_ok_fields
        on_agent_start_def disconnect_def Let_def split: option.splits)

theorem idle_when_down_witness:
  "timely example_env example_run (example_instance Direct)
   \<and> status (run_ops example_env example_run (example_instance Direct)) = StIdle
   \<and> conversationState (run_ops example_env example_run (example_instance Direct)) = CsIdle"
proof -
  have t: "timely example_env example_run (example_instance Direct)"
    using example_steps(1,2) [of example_env]
    by (simp add: example_run_def is_turn_signal_def)
  from idle_when_down [OF construct_example t, of 4] example_steps(3) [of example_env] t
  show ?thesis by (simp add: example_run_def Let_def)
qed

text \<open>
  Claim C2 is about every sequence of operations and session events. The listeners that
  \<^verbatim>\<open>connect\<close> puts on a session stay on it and do not look at the status: after a
  successful connection and a \<^verbatim>\<open>disconnect\<close>, an \<^verbatim>\<open>audio\<close> event of the closed
  session still sets the conversation state, while the status stays \<^verbatim>\<open>idle\<close>.
\<close>

theorem late_turn_signal_counterexample:
  "status (run_ops example_env (example_run @ [SessAudio]) (example_instance Direct)) = StIdle
   \<and> conversationState (run_ops example_env (example_run @ [SessAudio]) (example_instance Direct))
       = CsUserSpeaking"
proof -
  have "run_ops g (example_run @ [SessAudio]) s = step g SessAudio (run_ops g example_run s)" for g s
    by (simp add: run_ops_def)
  then show ?thesis
    using example_steps(3,4) [of example_env]
    by (simp add: step_def on_audio_def)
qed

text \<open>
  The theorem speaks of the state after a step. Inside \<^verbatim>\<open>setStatus\<close> the new status is
  published, with the whole state, before the conversation state is reset: the first
  \<^verbatim>\<open>stateChange\<close> of a change to \<^verbatim>\<open>idle\<close> still carries the old conversation state.
\<close>

lemma setStatus_publishes_old_conversation_state:
  assumes "status s \<noteq> StIdle"
  shows "published (setStatus StIdle s) =
     published s @
       [EvStatusChange StIdle, EvStateChange ((getState s)\<lparr>s_status := StIdle, s_isConnected := False\<rparr>)] @
       (if conversationState s = CsIdle then []
        else [EvConversationStateChange CsIdle,
              EvStateChange ((getState s)\<lparr>s_status := StIdle, s_isConnected := False,
                s_conversationState := CsIdle, s_isAiSpeaking := False,
                s_isUserSpeaking := False\<rparr>)])"
  using assms
  by (simp add: setStatus_def setConversationState_def emitStateChange_def emit_def getState_def
        isConnected_def Let_def)

section \<open>Emitting to the registry\<close>

subsection \<open>More depth never changes a result\<close>

lemma fuel_mono_all:
  "(\<forall>m ev b r. emit_to n beh ev b = Some r \<longrightarrow> n \<le> m \<longrightarrow> emit_to m beh ev b = Some r) \<and>
   (\<forall>m ev a i b r. forEach n beh ev a i b = Some r \<longrightarrow> n \<le> m \<longrightarrow> forEach m beh ev a i b = Some r) \<and>
   (\<forall>m f ev b r. call n beh f ev b = Some r \<longrightarrow> n \<le> m \<longrightarrow> call m beh f ev b = Some r) \<and>
   (\<forall>m cs b r. exec n beh cs b = Some r \<longrightarrow> n \<le> m \<longrightarrow> exec m beh cs b = Some r)"
proof (induction n)
  case 0
  then show ?case by simp
next
  case (Suc n)
  then have ihE: "\<And>m ev b r. emit_to n beh ev b = Some r \<Longrightarrow> n \<le> m \<Longrightarrow> emit_to m beh ev b = Some r"
    and ihF: "\<And>m ev a i b r. forEach n beh ev a i b = Some r \<Longrightarrow> n \<le> m \<Longrightarrow> forEach m beh ev a i b = Some r"
    and ihC: "\<And>m f ev b r. call n beh f ev b = Some r \<Longrightarrow> n \<le> m \<Longrightarrow> call m beh f ev b = Some r"
    and ihX: "\<And>m cs b r. exec n beh cs b = Some r \<Longrightarrow> n \<le> m \<Longrightarrow> exec m beh cs b = Some r"
    by blast+
  have e: "emit_to m beh ev b = Some r" if h: "emit_to (Suc n) beh ev b = Some r" "Suc n \<le> m"
    for m ev b r
  proof -
    from h(2) obtain m' where m: "m = Suc m'" "n \<le> m'" by (cases m) auto
    show ?thesis
    proof (cases "listeners b ev")
      case None
      with h(1) m show ?thesis by simp
    next
      case (Some a)
      with h(1) have "forEach n beh ev a 0 b = Some r" by simp
      from ihF [OF this m(2)] Some m show ?thesis by simp
    qed
  qed
  have f: "forEach m beh ev a i b = Some r" if h: "forEach (Suc n) beh ev a i b = Some r" "Suc n \<le> m"
    for m ev a i b r
  proof -
    from h(2) obtain m' where m: "m = Suc m'" "n \<le> m'" by (cases m) auto
    show ?thesis
    proof (cases "i < length (sets b a)")
      case False
      with h(1) m show ?thesis by simp
    next
      case True
      show ?thesis
      proof (cases "sets b a ! i")
        case None
        with True h(1) have "forEach n beh ev a (Suc i) b = Some r" by simp
        from ihF [OF this m(2)] True None m show ?thesis by simp
      next
        case (Some g)
        show ?thesis
        proof (cases "call n beh g ev b")
          case None
          with True Some h(1) show ?thesis by simp
        next
          case (Some tb)
          obtain t b1 where tb: "tb = (t, b1)" by (cases tb)
          have c: "call m' beh g ev b = Some (t, b1)"
            using ihC [OF Some [unfolded tb] m(2)] .
          have "forEach n beh ev a (Suc i) (if t then b1\<lparr>console := console b1 @ [ev]\<rparr> else b1) = Some r"
            using h(1) True \<open>sets b a ! i = Some g\<close> Some tb by simp
          from ihF [OF this m(2)] c True \<open>sets b a ! i = Some g\<close> m show ?thesis by simp
        qed
      qed
    qed
  qed
  have c: "call m beh g ev b = Some r" if h: "call (Suc n) beh g ev b = Some r" "Suc n \<le> m"
    for m g ev b r
  proof -
    from h(2) obtain m' where m: "m = Suc m'" "n \<le> m'" by (cases m) auto
    show ?thesis
    proof (cases g)
      case (Host x)
      with h(1) have "exec n beh (beh x) (b\<lparr>calls := calls b @ [(Host x, ev)]\<rparr>) = Some r"
        by (simp add: Let_def)
      from ihX [OF this m(2)] Host m show ?thesis by (simp add: Let_def)
    next
      case (Wrapper w wev x)
      with h(1) have "call n beh (Host x) ev
          (off wev (Wrapper w wev x) (b\<lparr>calls := calls b @ [(Wrapper w wev x, ev)]\<rparr>)) = Some r"
        by (simp add: Let_def)
      from ihC [OF this m(2)] Wrapper m show ?thesis by (simp add: Let_def)
    qed
  qed
  have x: "exec m beh cs b = Some r" if h: "exec (Suc n) beh cs b = Some r" "Suc n \<le> m"
    for m cs b r
  proof -
    from h(2) obtain m' where m: "m = Suc m'" "n \<le> m'" by (cases m) auto
    show ?thesis
    proof (cases cs)
      case Nil
      then show ?thesis using h(1) m by simp
    next
      case (Cons c cs')
      show ?thesis
      proof (cases c)
        case Throw
        with Cons h(1) m show ?thesis by simp
      next
        case (CallOn e k)
        with Cons h(1) have "exec n beh cs' (on e (Host k) b) = Some r" by simp
        from ihX [OF this m(2)] Cons CallOn m show ?thesis by simp
      next
        case (CallOff e k)
        with Cons h(1) have "exec n beh cs' (off e (Host k) b) = Some r" by simp
        from ihX [OF this m(2)] Cons CallOff m show ?thesis by simp
      next
        case (CallOnce e k)
        with Cons h(1) have "exec n beh cs' (once e k b) = Some r" by simp
        from ihX [OF this m(2)] Cons CallOnce m show ?thesis by simp
      next
        case CallRemoveAll
        with Cons h(1) have "exec n beh cs' (removeAllListeners b) = Some r" by simp
        from ihX [OF this m(2)] Cons CallRemoveAll m show ?thesis by simp
      next
        case (Publish e)
        show ?thesis
        proof (cases "emit_to n beh e b")
          case None
          with Cons Publish h(1) show ?thesis by simp
        next
          case (Some b1)
          with Cons Publish h(1) have "exec n beh cs' b1 = Some r" by simp
          from ihX [OF this m(2)] ihE [OF Some m(2)] Cons Publish m show ?thesis by simp
        qed
      qed
    qed
  qed
  show ?case using e f c x by blast
qed

lemma emit_to_mono: "emit_to n beh ev b = Some r \<Longrightarrow> n \<le> m \<Longrightarrow> emit_to m beh ev b = Some r"
  using fuel_mono_all [of n beh] by blast

lemma forEach_mono:
  "forEach n beh ev a i b = Some r \<Longrightarrow> n \<le> m \<Longrightarrow> forEach m beh ev a i b = Some r"
  using fuel_mono_all [of n beh] by blast

lemma call_mono: "call n beh f ev b = Some r \<Longrightarrow> n \<le> m \<Longrightarrow> call m beh f ev b = Some r"
  using fuel_mono_all [of n beh] by blast

lemma exec_mono: "exec n beh cs b = Some r \<Longrightarrow> n \<le> m \<Longrightarrow> exec m beh cs b = Some r"
  using fuel_mono_all [of n beh] by blast

subsection \<open>Callbacks that keep off an event\<close>

lemma owns_calls [simp]: "owns ev a (b\<lparr>calls := c\<rparr>) = owns ev a b"
  by (simp add: owns_def allocated_def)

lemma owns_console [simp]: "owns ev a (b\<lparr>console := c\<rparr>) = owns ev a b"
  by (simp add: owns_def allocated_def)

lemma on_other:
  assumes "e \<noteq> ev" and "owns ev a b"
  shows "owns ev a (on e f b)" and "sets (on e f b) a = sets b a"
    and "calls (on e f b) = calls b" and "console (on e f b) = console b"
  using assms
  by (auto simp: on_def owns_def allocated_def less_Suc_eq split: option.splits)

lemma off_other:
  assumes "e \<noteq> ev" and "owns ev a b"
  shows "owns ev a (off e f b)" and "sets (off e f b) a = sets b a"
    and "calls (off e f b) = calls b" and "console (off e f b) = console b"
  using assms
  by (auto simp: off_def owns_def allocated_def split: option.splits)

lemma once_other:
  assumes "e \<noteq> ev" and "owns ev a b"
  shows "owns ev a (once e h b)" and "sets (once e h b) a = sets b a"
    and "calls (once e h b) = calls b" and "console (once e h b) = console b"
proof -
  have o: "owns ev a (b\<lparr>nwrappers := nwrappers b + 1\<rparr>)"
    using assms(2) by (simp add: owns_def allocated_def)
  show "owns ev a (once e h b)" "sets (once e h b) a = sets b a"
    "calls (once e h b) = calls b" "console (once e h b) = console b"
    using on_other [OF assms(1) o] by (simp_all add: once_def)
qed

lemma removeAll_owns:
  assumes "owns ev a b"
  shows "owns ev a (removeAllListeners b)" and "sets (removeAllListeners b) a = sets b a"
    and "calls (removeAllListeners b) = calls b" and "console (removeAllListeners b) = console b"
  using assms by (simp_all add: removeAllListeners_def owns_def allocated_def)

lemma exec_quiet:
  "quiet ev cs \<Longrightarrow> owns ev a b \<Longrightarrow>
   \<exists>b'. exec (Suc (length cs)) beh cs b = Some (Throw \<in> set cs, b') \<and> owns ev a b' \<and>
        sets b' a = sets b a \<and> calls b' = calls b \<and> console b' = console b"
proof (induction ev cs arbitrary: b rule: quiet.induct)
  case (1 ev)
  then show ?case by simp
next
  case (2 ev cs)
  then show ?case by simp
next
  case (3 ev e h cs)
  then have q: "quiet ev cs" and ne: "e \<noteq> ev" by simp_all
  from "3.IH" [OF q on_other(1) [OF ne "3.prems"(2)], of "Host h"] on_other(2-4) [OF ne "3.prems"(2), of "Host h"]
  show ?case by auto
next
  case (4 ev e h cs)
  then have q: "quiet ev cs" and ne: "e \<noteq> ev" by simp_all
  from "4.IH" [OF q off_other(1) [OF ne "4.prems"(2)], of "Host h"] off_other(2-4) [OF ne "4.prems"(2), of "Host h"]
  show ?case by auto
next
  case (5 ev e h cs)
  then have q: "quiet ev cs" and ne: "e \<noteq> ev" by simp_all
  from "5.IH" [OF q once_other(1) [OF ne "5.prems"(2)], of h] once_other(2-4) [OF ne "5.prems"(2), of h]
  show ?case by auto
next
  case (6 ev cs)
  then have q: "quiet ev cs" by simp
  from "6.IH" [OF q removeAll_owns(1) [OF "6.prems"(2)]] removeAll_owns(2-4) [OF "6.prems"(2)]
  show ?case by auto
next
  case (7 ev e cs)
  then show ?case by simp
qed

subsection \<open>What a run keeps\<close>

text \<open>
  A relation between registries that holds across each single change of the registry
  holds across every emit, loop, call and body that ends.
\<close>

lemma run_rel_all:
  assumes refl: "\<And>b. R b b"
    and trans: "\<And>b c d. R b c \<Longrightarrow> R c d \<Longrightarrow> R b d"
    and called: "\<And>b x. R b (b\<lparr>calls := calls b @ [x]\<rparr>)"
    and logged: "\<And>b e. R b (b\<lparr>console := console b @ [e]\<rparr>)"
    and on: "\<And>b e f. R b (on e f b)"
    and off: "\<And>b e f. R b (off e f b)"
    and once: "\<And>b e h. R b (once e h b)"
    and clear: "\<And>b. R b (removeAllListeners b)"
  shows "(\<forall>ev b r. emit_to n beh ev b = Some r \<longrightarrow> R b r) \<and>
         (\<forall>ev a i b r. forEach n beh ev a i b = Some r \<longrightarrow> R b r) \<and>
         (\<forall>f ev b t r. call n beh f ev b = Some (t, r) \<longrightarrow> R b r) \<and>
         (\<forall>cs b t r. exec n beh cs b = Some (t, r) \<longrightarrow> R b r)"
proof (induction n)
  case 0
  then show ?case by simp
next
  case (Suc n)
  then have ihE: "\<And>ev b r. emit_to n beh ev b = Some r \<Longrightarrow> R b r"
    and ihF: "\<And>ev a i b r. forEach n beh ev a i b = Some r \<Longrightarrow> R b r"
    and ihC: "\<And>f ev b t r. call n beh f ev b = Some (t, r) \<Longrightarrow> R b r"
    and ihX: "\<And>cs b t r. exec n beh cs b = Some (t, r) \<Longrightarrow> R b r"
    by blast+
  have e: "R b r" if h: "emit_to (Suc n) beh ev b = Some r" for ev b r
  proof (cases "listeners b ev")
    case None
    with h refl show ?thesis by simp
  next
    case (Some a)
    with h have "forEach n beh ev a 0 b = Some r" by simp
    from ihF [OF this] show ?thesis .
  qed
  have f: "R b r" if h: "forEach (Suc n) beh ev a i b = Some r" for ev a i b r
  proof (cases "i < length (sets b a)")
    case False
    with h refl show ?thesis by simp
  next
    case True
    show ?thesis
    proof (cases "sets b a ! i")
      case None
      with True h have "forEach n beh ev a (Suc i) b = Some r" by simp
      from ihF [OF this] show ?thesis .
    next
      case (Some g)
      show ?thesis
      proof (cases "call n beh g ev b")
        case None
        with True Some h show ?thesis by simp
      next
        case c: (Some tb)
        obtain t b1 where tb: "tb = (t, b1)" by (cases tb)
        have 1: "R b b1" using ihC c tb by blast
        have 2: "R b1 (if t then b1\<lparr>console := console b1 @ [ev]\<rparr> else b1)"
          using logged refl by simp
        have "forEach n beh ev a (Suc i) (if t then b1\<lparr>console := console b1 @ [ev]\<rparr> else b1) = Some r"
          using h True Some c tb by simp
        from ihF [OF this] have 3: "R (if t then b1\<lparr>console := console b1 @ [ev]\<rparr> else b1) r" .
        from trans [OF trans [OF 1 2] 3] show ?thesis .
      qed
    qed
  qed
  have c: "R b r" if h: "call (Suc n) beh g ev b = Some (t, r)" for g ev b t r
  proof (cases g)
    case (Host x)
    with h have "exec n beh (beh x) (b\<lparr>calls := calls b @ [(Host x, ev)]\<rparr>) = Some (t, r)"
      by (simp add: Let_def)
    from trans [OF called ihX [OF this]] show ?thesis .
  next
    case (Wrapper w wev x)
    with h have "call n beh (Host x) ev
        (off wev (Wrapper w wev x) (b\<lparr>calls := calls b @ [(Wrapper w wev x, ev)]\<rparr>)) = Some (t, r)"
      by (simp add: Let_def)
    from trans [OF trans [OF called off] ihC [OF this]] show ?thesis .
  qed
  have x: "R b r" if h: "exec (Suc n) beh cs b = Some (t, r)" for cs b t r
  proof (cases cs)
    case Nil
    then show ?thesis using h refl by simp
  next
    case (Cons c cs')
    show ?thesis
    proof (cases c)
      case Throw
      with Cons h refl show ?thesis by simp
    next
      case (CallOn e k)
      with Cons h have "exec n beh cs' (on e (Host k) b) = Some (t, r)" by simp
      from trans [OF on ihX [OF this]] show ?thesis .
    next
      case (CallOff e k)
      with Cons h have "exec n beh cs' (off e (Host k) b) = Some (t, r)" by simp
      from trans [OF off ihX [OF this]] show ?thesis .
    next
      case (CallOnce e k)
      with Cons h have "exec n beh cs' (once e k b) = Some (t, r)" by simp
      from trans [OF once ihX [OF this]] show ?thesis .
    next
      case CallRemoveAll
      with Cons h have "exec n beh cs' (removeAllListeners b) = Some (t, r)" by simp
      from trans [OF clear ihX [OF this]] show ?thesis .
    next
      case (Publish e)
      show ?thesis
      proof (cases "emit_to n beh e b")
        case None
        with Cons Publish h show ?thesis by simp
      next
        case (Some b1)
        with Cons Publish h have "exec n beh cs' b1 = Some (t, r)" by simp
        from trans [OF ihE [OF Some] ihX [OF this]] show ?thesis .
      qed
    qed
  qed
  show ?case using e f c x by blast
qed

lemma live_append [simp]: "live (xs @ ys) = live xs @ live ys"
  by (induction xs rule: live.induct) simp_all

lemma set_live [simp]: "set (live es) = {f. Some f \<in> set es}"
  by (induction es rule: live.induct) auto

lemma set_add_distinct: "distinct (live es) \<Longrightarrow> distinct (live (set_add f es))"
  by (simp add: set_add_def)

lemma live_set_delete: "live (set_delete f es) = filter (\<lambda>g. g \<noteq> f) (live es)"
  by (induction es rule: live.induct) (simp_all add: set_delete_def)

lemma set_delete_distinct: "distinct (live es) \<Longrightarrow> distinct (live (set_delete f es))"
  by (simp add: live_set_delete)

lemma no_repeats_kept:
  assumes "exec n beh cs b = Some (t, r)" and "no_repeats b"
  shows "no_repeats r"
proof -
  have "(\<forall>ev b r. emit_to n beh ev b = Some r \<longrightarrow> (no_repeats b \<longrightarrow> no_repeats r)) \<and>
         (\<forall>ev a i b r. forEach n beh ev a i b = Some r \<longrightarrow> (no_repeats b \<longrightarrow> no_repeats r)) \<and>
         (\<forall>f ev b t r. call n beh f ev b = Some (t, r) \<longrightarrow> (no_repeats b \<longrightarrow> no_repeats r)) \<and>
         (\<forall>cs b t r. exec n beh cs b = Some (t, r) \<longrightarrow> (no_repeats b \<longrightarrow> no_repeats r))"
    by (rule run_rel_all)
      (auto simp: no_repeats_def on_def off_def once_def removeAllListeners_def
         set_add_distinct set_delete_distinct split: option.splits)
  with assms show ?thesis by blast
qed

lemma calls_grow:
  assumes "emit_to n beh ev b = Some r"
  shows "\<exists>new. calls r = calls b @ new"
proof -
  have "(\<forall>ev b r. emit_to n beh ev b = Some r \<longrightarrow> (\<exists>new. calls r = calls b @ new)) \<and>
         (\<forall>ev a i b r. forEach n beh ev a i b = Some r \<longrightarrow> (\<exists>new. calls r = calls b @ new)) \<and>
         (\<forall>f ev b t r. call n beh f ev b = Some (t, r) \<longrightarrow> (\<exists>new. calls r = calls b @ new)) \<and>
         (\<forall>cs b t r. exec n beh cs b = Some (t, r) \<longrightarrow> (\<exists>new. calls r = calls b @ new))"
    by (rule run_rel_all)
      (auto simp: on_def off_def once_def removeAllListeners_def split: option.splits)
  with assms show ?thesis by blast
qed

lemma no_repeats_new: "no_repeats new_bus"
  by (simp add: no_repeats_def new_bus_def)

subsection \<open>One emit calls each subscriber once\<close>

lemma forEach_steady:
  "steady k n beh ev a i b \<Longrightarrow> k = length (sets b a) - i \<Longrightarrow>
   \<exists>b'. call_each n beh ev (live (drop i (sets b a))) b = Some b' \<and>
        forEach (n + k + 1) beh ev a i b = Some b'"
proof (induction k arbitrary: i b)
  case 0
  then show ?case by simp
next
  case (Suc k)
  then have i: "i < length (sets b a)" by simp
  then have dr: "drop i (sets b a) = sets b a ! i # drop (Suc i) (sets b a)"
    by (simp add: Cons_nth_drop_Suc)
  show ?case
  proof (cases "sets b a ! i")
    case None
    with Suc.prems(1) have s: "steady k n beh ev a (Suc i) b" by simp
    have k: "k = length (sets b a) - Suc i" using Suc.prems(2) by simp
    from Suc.IH [OF s k] obtain b' where
      r: "call_each n beh ev (live (drop (Suc i) (sets b a))) b = Some b'"
        "forEach (n + k + 1) beh ev a (Suc i) b = Some b'"
      by blast
    have "forEach (Suc (n + k + 1)) beh ev a i b = Some b'" using i None r(2) by simp
    then have "forEach (n + Suc k + 1) beh ev a i b = Some b'" by simp
    moreover have "call_each n beh ev (live (drop i (sets b a))) b = Some b'"
      using r(1) dr None by simp
    ultimately show ?thesis by blast
  next
    case (Some f)
    with Suc.prems(1) obtain t c where
      c: "call n beh f ev b = Some (t, c)"
        "drop (Suc i) (sets c a) = drop (Suc i) (sets b a)"
        "steady k n beh ev a (Suc i) (if t then c\<lparr>console := console c @ [ev]\<rparr> else c)"
      by (auto split: option.splits)
    let ?c = "if t then c\<lparr>console := console c @ [ev]\<rparr> else c"
    have sc: "sets ?c a = sets c a" by simp
    have "length (drop (Suc i) (sets c a)) = length (drop (Suc i) (sets b a))"
      using c(2) by simp
    then have k: "k = length (sets ?c a) - Suc i" using Suc.prems(2) sc by simp
    from Suc.IH [OF c(3) k] obtain b' where
      r: "call_each n beh ev (live (drop (Suc i) (sets ?c a))) ?c = Some b'"
        "forEach (n + k + 1) beh ev a (Suc i) ?c = Some b'"
      by blast
    have cm: "call (n + k + 1) beh f ev b = Some (t, c)"
      using call_mono [OF c(1), of "n + k + 1"] by simp
    have "forEach (Suc (n + k + 1)) beh ev a i b = Some b'"
      using i Some cm r(2) by simp
    then have "forEach (n + Suc k + 1) beh ev a i b = Some b'" by simp
    moreover have "call_each n beh ev (live (drop i (sets b a))) b = Some b'"
      using r(1) dr Some c(1,2) sc by simp
    ultimately show ?thesis by blast
  qed
qed

text \<open>
  Subscribers whose bodies are quiet for the event make a steady emit: they change
  neither this event's set nor, by emitting, anything else through other callbacks.
\<close>

lemma steady_quiet:
  assumes "owns ev a b"
    and "\<forall>f. Some f \<in> set (drop i (sets b a)) \<longrightarrow>
           (\<exists>h. f = Host h \<and> quiet ev (beh h) \<and> length (beh h) + 2 \<le> n)"
    and "k \<le> length (sets b a) - i"
  shows "steady k n beh ev a i b"
  using assms
proof (induction k arbitrary: i b)
  case 0
  then show ?case by simp
next
  case (Suc k)
  then have i: "i < length (sets b a)" by simp
  then have dr: "drop i (sets b a) = sets b a ! i # drop (Suc i) (sets b a)"
    by (simp add: Cons_nth_drop_Suc)
  have p: "\<forall>f. Some f \<in> set (drop (Suc i) (sets b a)) \<longrightarrow>
           (\<exists>h. f = Host h \<and> quiet ev (beh h) \<and> length (beh h) + 2 \<le> n)"
    using Suc.prems(2) dr by (metis list.set_intros(2))
  have k: "k \<le> length (sets b a) - Suc i" using Suc.prems(3) by simp
  show ?case
  proof (cases "sets b a ! i")
    case None
    with Suc.IH [OF Suc.prems(1) p k] show ?thesis by simp
  next
    case (Some f)
    then obtain h where h: "f = Host h" "quiet ev (beh h)" "length (beh h) + 2 \<le> n"
      using Suc.prems(2) dr by (metis list.set_intros(1))
    let ?b1 = "b\<lparr>calls := calls b @ [(Host h, ev)]\<rparr>"
    from exec_quiet [OF h(2), of a ?b1 beh] Suc.prems(1) obtain b2 where
      x: "exec (Suc (length (beh h))) beh (beh h) ?b1 = Some (Throw \<in> set (beh h), b2)"
        "owns ev a b2" "sets b2 a = sets b a"
      by auto
    let ?b3 = "if Throw \<in> set (beh h) then b2\<lparr>console := console b2 @ [ev]\<rparr> else b2"
    have o3: "owns ev a ?b3" and s3: "sets ?b3 a = sets b a" using x(2,3) by simp_all
    have "call (Suc (Suc (length (beh h)))) beh (Host h) ev b = Some (Throw \<in> set (beh h), b2)"
      using x(1) by (simp add: Let_def)
    from call_mono [OF this, of n] have c: "call n beh f ev b = Some (Throw \<in> set (beh h), b2)"
      unfolding h(1) using h(3) by simp
    have "steady k n beh ev a (Suc i) ?b3"
      using Suc.IH [of ?b3 "Suc i"] o3 p k unfolding s3 by blast
    then show ?thesis using Some c x(3) by simp
  qed
qed




text \<open>
  Callback 6 unsubscribes itself and subscribes itself again: its new entry lies behind
  the one being visited, so the \<^verbatim>\<open>forEach\<close> finds it again, and the emit never ends,
  whatever the depth allowed.
\<close>

lemma call_resubscribing:
  assumes "listeners b ''error'' = Some a" and "sets b a = replicate i None @ [Some (Host 6)]"
    and "call n example_beh (Host 6) ''error'' b = Some (t, b1)"
  shows "listeners b1 ''error'' = Some a \<and> sets b1 a = replicate (Suc i) None @ [Some (Host 6)]"
proof -
  have "call n example_beh (Host 6) ''error'' b = None" if "n < 4"
  proof -
    from that consider "n = 0" | "n = Suc 0" | "n = Suc (Suc 0)" | "n = Suc (Suc (Suc 0))"
      by linarith
    then show ?thesis by cases (simp_all add: Let_def example_beh_def)
  qed
  with assms(3) have "4 \<le> n" by fastforce
  then obtain k where "n = 4 + k" using le_Suc_ex by blast
  then have n: "n = Suc (Suc (Suc (Suc k)))" by simp
  let ?b = "b\<lparr>calls := calls b @ [(Host 6, ''error'')]\<rparr>"
  have "b1 = on ''error'' (Host 6) (off ''error'' (Host 6) ?b)"
    using assms(3) unfolding n by (simp add: Let_def example_beh_def)
  then show ?thesis
    using assms(1,2)
    by (simp add: on_def off_def set_add_def set_delete_def replicate_append_same)
qed

lemma forEach_never_ends:
  "listeners b ''error'' = Some a \<Longrightarrow> sets b a = replicate i None @ [Some (Host 6)] \<Longrightarrow>
   forEach n example_beh ''error'' a i b = None"
proof (induction n arbitrary: i b)
  case 0
  then show ?case by simp
next
  case (Suc n)
  have i: "i < length (sets b a)" and e: "sets b a ! i = Some (Host 6)"
    using Suc.prems(2) by (simp_all add: nth_append)
  show ?case
  proof (cases "call n example_beh (Host 6) ''error'' b")
    case None
    with i e show ?thesis by simp
  next
    case (Some r)
    obtain t b1 where r: "r = (t, b1)" by (cases r)
    from call_resubscribing [OF Suc.prems Some [unfolded r]]
    have 1: "listeners b1 ''error'' = Some a"
      and 2: "sets b1 a = replicate (Suc i) None @ [Some (Host 6)]"
      by simp_all
    let ?b = "if t then b1\<lparr>console := console b1 @ [''error'']\<rparr> else b1"
    have "forEach n example_beh ''error'' a (Suc i) ?b = None"
      using 1 2 by (intro Suc.IH) simp_all
    with i e Some r show ?thesis by simp
  qed
qed

lemma emit_never_ends_example:
  "emit_to n example_beh ''error'' (on ''error'' (Host 6) new_bus) = None"
proof (cases n)
  case 0
  then show ?thesis by simp
next
  case (Suc k)
  have "forEach k example_beh ''error'' 0 0 (on ''error'' (Host 6) new_bus) = None"
    by (rule forEach_never_ends) (simp_all add: on_def new_bus_def set_add_def)
  then show ?thesis unfolding Suc by (simp add: on_def new_bus_def)
qed

subsection \<open>Callbacks registered with once\<close>

text \<open>A wrapper unsubscribes itself, then calls its callback.\<close>

lemma call_wrapper:
  "call (Suc n) beh (Wrapper w ev h) e b =
     call n beh (Host h) e
       (off ev (Wrapper w ev h) (b\<lparr>calls := calls b @ [(Wrapper w ev h, e)]\<rparr>))"
  by (simp add: Let_def)

lemma ready_iff: "ready beh ev es = (\<forall>f. Some f \<in> set es \<longrightarrow> ready_fn beh ev f)"
  by (simp add: ready_def list_all_iff)

lemma wrappers_Nil_iff: "wrappers es = [] \<longleftrightarrow> (\<forall>f. Some f \<in> set es \<longrightarrow> \<not> is_wrapper f)"
  by (auto simp: wrappers_def filter_empty_conv)

lemma strip_idem [simp]: "strip (strip e) = strip e"
  by (cases e rule: strip.cases) simp_all

lemma strip_Some: "Some f = strip x \<Longrightarrow> \<not> is_wrapper f"
  by (cases x rule: strip.cases) auto

lemma wrappers_strip [simp]: "wrappers (map strip es) = []"
  by (auto simp: wrappers_Nil_iff dest: strip_Some)

lemma strip_none: "wrappers es = [] \<Longrightarrow> map strip es = es"
proof (induction es)
  case Nil
  then show ?case by simp
next
  case (Cons e es)
  then show ?case by (cases e rule: strip.cases) (simp_all add: wrappers_def)
qed

lemma strip_set_delete: "is_wrapper f \<Longrightarrow> map strip (set_delete f es) = map strip es"
  by (cases f) (auto simp: set_delete_def)

lemma wrappers_set_delete:
  "Some f \<in> set es \<Longrightarrow> is_wrapper f \<Longrightarrow> length (wrappers (set_delete f es)) < length (wrappers es)"
proof -
  assume m: "Some f \<in> set es" and w: "is_wrapper f"
  have "wrappers (set_delete f es) = filter (\<lambda>g. g \<noteq> f) (wrappers es)"
    by (simp add: wrappers_def live_set_delete conj_commute)
  moreover have "f \<in> set (wrappers es)" using m w by (simp add: wrappers_def)
  ultimately show ?thesis by (simp add: length_filter_less)
qed

lemma wrappers_take_Suc:
  assumes "wrappers (take i es) = []" and "i < length es"
  shows "wrappers (take (Suc i) (set_delete f es)) = [] \<longleftrightarrow>
           (case es ! i of None \<Rightarrow> True | Some g \<Rightarrow> g = f \<or> \<not> is_wrapper g)"
proof -
  have t: "take (Suc i) (set_delete f es) =
      set_delete f (take i es) @ [if es ! i = Some f then None else es ! i]"
    using assms(2) by (simp add: set_delete_def take_Suc_conv_app_nth take_map)
  have "wrappers (set_delete f (take i es)) = []"
    using assms(1) by (auto simp: wrappers_Nil_iff set_delete_def)
  then show ?thesis
    unfolding t by (auto simp: wrappers_def split: option.splits)
qed

lemma wrappers_take_Suc_same:
  assumes "wrappers (take i es) = []" and "i < length es"
    and "case es ! i of None \<Rightarrow> True | Some g \<Rightarrow> \<not> is_wrapper g"
  shows "wrappers (take (Suc i) es) = []"
  using assms by (auto simp: wrappers_def take_Suc_conv_app_nth split: option.splits)

lemma wrappers_take_strip [simp]: "wrappers (take j (map strip es)) = []"
  by (simp add: take_map)

lemma settled_calls [simp]: "settled beh ev a (b\<lparr>calls := c\<rparr>) = settled beh ev a b"
  by (simp add: settled_def)

lemma settled_console [simp]: "settled beh ev a (b\<lparr>console := c\<rparr>) = settled beh ev a b"
  by (simp add: settled_def)

lemma score_console [simp]: "score ev a f (b\<lparr>console := c\<rparr>) = score ev a f b"
  by (simp add: score_def)

lemma settled_other:
  assumes "e \<noteq> ev" and "settled beh ev a b"
  shows "settled beh ev a (on e f b) \<and> sets (on e f b) a = sets b a \<and>
           score ev a g (on e f b) = score ev a g b"
    and "settled beh ev a (off e f b) \<and> sets (off e f b) a = sets b a \<and>
           score ev a g (off e f b) = score ev a g b"
    and "settled beh ev a (once e h b) \<and> sets (once e h b) a = sets b a \<and>
           score ev a g (once e h b) = score ev a g b"
proof -
  from assms(2) have o: "owns ev a b" and l: "listeners b ev = Some a"
    and r: "ready beh ev (sets b a)"
    by (simp_all add: settled_def)
  have 1: "listeners (on e f b) ev = Some a" if "listeners b ev = Some a" for f b
    using that assms(1) by (simp add: on_def split: option.splits)
  have 2: "listeners (off e f b) ev = Some a"
    using l by (simp add: off_def split: option.splits)
  show "settled beh ev a (on e f b) \<and> sets (on e f b) a = sets b a \<and>
           score ev a g (on e f b) = score ev a g b"
    using on_other [OF assms(1) o, of f] 1 [OF l] r by (simp add: settled_def score_def)
  show "settled beh ev a (off e f b) \<and> sets (off e f b) a = sets b a \<and>
           score ev a g (off e f b) = score ev a g b"
    using off_other [OF assms(1) o, of f] 2 r by (simp add: settled_def score_def)
  have "listeners (once e h b) ev = Some a"
    unfolding once_def using l by (intro 1) simp
  then show "settled beh ev a (once e h b) \<and> sets (once e h b) a = sets b a \<and>
           score ev a g (once e h b) = score ev a g b"
    using once_other [OF assms(1) o, of h] r by (simp add: settled_def score_def)
qed

lemma exec_tame:
  assumes H: "\<And>b. p \<Longrightarrow> settled beh ev a b \<Longrightarrow> length (wrappers (sets b a)) \<le> K \<Longrightarrow>
                finishes beh ev a 0 b"
  shows "tame p ev cs \<Longrightarrow> settled beh ev a b \<Longrightarrow> length (wrappers (sets b a)) \<le> K \<Longrightarrow>
         \<exists>n t b'. exec n beh cs b = Some (t, b') \<and> settled beh ev a b' \<and>
           (sets b' a = sets b a \<or> p \<and> sets b' a = map strip (sets b a)) \<and>
           (\<forall>f. is_wrapper f \<longrightarrow> score ev a f b' = score ev a f b)"
proof (induction cs arbitrary: b)
  case Nil
  have "exec 1 beh [] b = Some (False, b)" by simp
  with Nil show ?case by blast
next
  case (Cons c cs)
  show ?case
  proof (cases c)
    case Throw
    have "exec 1 beh (c # cs) b = Some (True, b)" using Throw by simp
    with Cons.prems show ?thesis by blast
  next
    case (CallOn e h)
    with Cons.prems have t: "tame p ev cs" and ne: "e \<noteq> ev" by simp_all
    let ?b = "on e (Host h) b"
    from settled_other(1) [OF ne Cons.prems(2), of "Host h"]
    have s: "settled beh ev a ?b" "sets ?b a = sets b a"
      "\<And>g. score ev a g ?b = score ev a g b" by simp_all
    from Cons.IH [OF t s(1)] Cons.prems(3) s(2) obtain n t' b' where
      r: "exec n beh cs ?b = Some (t', b')" "settled beh ev a b'"
        "sets b' a = sets ?b a \<or> p \<and> sets b' a = map strip (sets ?b a)"
        "\<forall>f. is_wrapper f \<longrightarrow> score ev a f b' = score ev a f ?b"
      by auto
    have "exec (Suc n) beh (c # cs) b = Some (t', b')" using r(1) CallOn by simp
    with r(2-4) s(2,3) show ?thesis by metis
  next
    case (CallOff e h)
    with Cons.prems have t: "tame p ev cs" and ne: "e \<noteq> ev" by simp_all
    let ?b = "off e (Host h) b"
    from settled_other(2) [OF ne Cons.prems(2), of "Host h"]
    have s: "settled beh ev a ?b" "sets ?b a = sets b a"
      "\<And>g. score ev a g ?b = score ev a g b" by simp_all
    from Cons.IH [OF t s(1)] Cons.prems(3) s(2) obtain n t' b' where
      r: "exec n beh cs ?b = Some (t', b')" "settled beh ev a b'"
        "sets b' a = sets ?b a \<or> p \<and> sets b' a = map strip (sets ?b a)"
        "\<forall>f. is_wrapper f \<longrightarrow> score ev a f b' = score ev a f ?b"
      by auto
    have "exec (Suc n) beh (c # cs) b = Some (t', b')" using r(1) CallOff by simp
    with r(2-4) s(2,3) show ?thesis by metis
  next
    case (CallOnce e h)
    with Cons.prems have t: "tame p ev cs" and ne: "e \<noteq> ev" by simp_all
    let ?b = "once e h b"
    from settled_other(3) [OF ne Cons.prems(2), of h]
    have s: "settled beh ev a ?b" "sets ?b a = sets b a"
      "\<And>g. score ev a g ?b = score ev a g b" by simp_all
    from Cons.IH [OF t s(1)] Cons.prems(3) s(2) obtain n t' b' where
      r: "exec n beh cs ?b = Some (t', b')" "settled beh ev a b'"
        "sets b' a = sets ?b a \<or> p \<and> sets b' a = map strip (sets ?b a)"
        "\<forall>f. is_wrapper f \<longrightarrow> score ev a f b' = score ev a f ?b"
      by auto
    have "exec (Suc n) beh (c # cs) b = Some (t', b')" using r(1) CallOnce by simp
    with r(2-4) s(2,3) show ?thesis by metis
  next
    case CallRemoveAll
    with Cons.prems show ?thesis by simp
  next
    case (Publish e)
    from Cons.prems(1) have "tame p ev (Publish e # cs)" unfolding Publish .
    then have t: "tame p ev cs" and p: p and e: "e = ev" unfolding tame.simps by blast+
    from H [OF p Cons.prems(2,3)] obtain n1 b1 where
      f: "forEach n1 beh ev a 0 b = Some b1" "settled beh ev a b1"
        "sets b1 a = map strip (sets b a)"
        "\<forall>f. is_wrapper f \<longrightarrow> score ev a f b1 = score ev a f b"
      unfolding finishes_def by blast
    have l: "listeners b ev = Some a" using Cons.prems(2) by (simp add: settled_def)
    have "length (wrappers (sets b1 a)) \<le> K" using f(3) by simp
    from Cons.IH [OF t f(2) this] obtain n2 t' b' where
      r: "exec n2 beh cs b1 = Some (t', b')" "settled beh ev a b'"
        "sets b' a = sets b1 a \<or> p \<and> sets b' a = map strip (sets b1 a)"
        "\<forall>f. is_wrapper f \<longrightarrow> score ev a f b' = score ev a f b1"
      by auto
    let ?m = "max (Suc n1) n2"
    have "emit_to (Suc n1) beh ev b = Some b1" using f(1) l by simp
    then have 1: "emit_to ?m beh ev b = Some b1" by (rule emit_to_mono) simp
    have 2: "exec ?m beh cs b1 = Some (t', b')" using r(1) by (rule exec_mono) simp
    have "exec (Suc ?m) beh (c # cs) b = Some (t', b')" using 1 2 Publish e by simp
    moreover have "sets b' a = map strip (sets b a)" using r(3) f(3) by auto
    ultimately show ?thesis using r(2,4) f(4) p by metis
  qed
qed

lemma owns_sets [simp]: "owns ev a (b\<lparr>sets := s\<rparr>) = owns ev a b"
  by (simp add: owns_def allocated_def)

lemma ready_set_delete: "ready beh ev es \<Longrightarrow> ready beh ev (set_delete f es)"
  by (auto simp: ready_iff set_delete_def split: if_splits)

lemma score_called:
  assumes "is_wrapper f"
  shows "score ev a f (b\<lparr>calls := calls b @ [(Host h, e)]\<rparr>) = score ev a f b"
  using assms by (cases f) (simp_all add: score_def)

lemma forEach_settled:
  "settled beh ev a b \<Longrightarrow> length (wrappers (sets b a)) \<le> K \<Longrightarrow>
   wrappers (take i (sets b a)) = [] \<Longrightarrow> finishes beh ev a i b"
proof (induction K arbitrary: i b rule: less_induct)
  case (less K)
  note outer = less.IH
  from less.prems show ?case
  proof (induction "length (sets b a) - i" arbitrary: i b)
    case 0
    then have "take i (sets b a) = sets b a" by simp
    with 0 have "map strip (sets b a) = sets b a" by (simp add: strip_none)
    moreover have "forEach 1 beh ev a i b = Some b" using 0 by simp
    ultimately show ?case using 0 unfolding finishes_def by metis
  next
    case (Suc d)
    then have i: "i < length (sets b a)" by simp
    have l: "listeners b ev = Some a" and o: "owns ev a b" and rd: "ready beh ev (sets b a)"
      using Suc.prems(1) by (simp_all add: settled_def)
    show ?case
    proof (cases "sets b a ! i")
      case None
      have d: "d = length (sets b a) - Suc i" using Suc.hyps(2) by simp
      have w: "wrappers (take (Suc i) (sets b a)) = []"
        using wrappers_take_Suc_same [OF Suc.prems(3) i] None by simp
      from Suc.hyps(1) [OF d Suc.prems(1,2) w] obtain n b' where
        r: "forEach n beh ev a (Suc i) b = Some b'" "settled beh ev a b'"
          "sets b' a = map strip (sets b a)"
          "\<forall>f. is_wrapper f \<longrightarrow> score ev a f b' = score ev a f b"
        unfolding finishes_def by blast
      have "forEach (Suc n) beh ev a i b = Some b'" using i None r(1) by simp
      with r(2-4) show ?thesis unfolding finishes_def by blast
    next
      case (Some f)
      then have m: "Some f \<in> set (sets b a)" using i by (metis nth_mem)
      with rd have rf: "ready_fn beh ev f" by (simp add: ready_iff)
      show ?thesis
      proof (cases f)
        case (Host g)
        with rf have t: "tame False ev (beh g)" by simp
        let ?b1 = "b\<lparr>calls := calls b @ [(Host g, ev)]\<rparr>"
        have s1: "settled beh ev a ?b1" using Suc.prems(1) by simp
        have k1: "length (wrappers (sets ?b1 a)) \<le> K" using Suc.prems(2) by simp
        from exec_tame [of False beh ev a K "beh g" ?b1, OF _ t s1 k1] obtain n1 t1 b2 where
          x: "exec n1 beh (beh g) ?b1 = Some (t1, b2)" "settled beh ev a b2"
            "sets b2 a = sets b a"
            "\<forall>f. is_wrapper f \<longrightarrow> score ev a f b2 = score ev a f ?b1"
          by auto
        let ?b3 = "if t1 then b2\<lparr>console := console b2 @ [ev]\<rparr> else b2"
        have s3: "settled beh ev a ?b3" and e3: "sets ?b3 a = sets b a"
          using x(2,3) by simp_all
        have sc3: "score ev a f ?b3 = score ev a f b" if "is_wrapper f" for f
          using x(4) that score_called [OF that, of ev a b g ev] by simp
        have d: "d = length (sets ?b3 a) - Suc i" using Suc.hyps(2) e3 by simp
        have k3: "length (wrappers (sets ?b3 a)) \<le> K" using Suc.prems(2) e3 by simp
        have w: "wrappers (take (Suc i) (sets ?b3 a)) = []"
          unfolding e3 using wrappers_take_Suc_same [OF Suc.prems(3) i] Some Host by simp
        from Suc.hyps(1) [OF d s3 k3 w] obtain n b' where
          r: "forEach n beh ev a (Suc i) ?b3 = Some b'" "settled beh ev a b'"
            "sets b' a = map strip (sets ?b3 a)"
            "\<forall>f. is_wrapper f \<longrightarrow> score ev a f b' = score ev a f ?b3"
          unfolding finishes_def by blast
        let ?m = "max n (Suc n1)"
        have "call (Suc n1) beh (Host g) ev b = Some (t1, b2)" using x(1) by (simp add: Let_def)
        then have c: "call ?m beh (Host g) ev b = Some (t1, b2)" by (rule call_mono) simp
        have f': "forEach ?m beh ev a (Suc i) ?b3 = Some b'" using r(1) by (rule forEach_mono) simp
        have "forEach (Suc ?m) beh ev a i b = Some b'" using i Some Host c f' by simp
        moreover have "sets b' a = map strip (sets b a)" using r(3) e3 by simp
        moreover have "\<forall>f. is_wrapper f \<longrightarrow> score ev a f b' = score ev a f b"
          using r(4) sc3 by simp
        ultimately show ?thesis using r(2) unfolding finishes_def by blast
      next
        case (Wrapper w e h)
        with rf have e: "e = ev" and t: "tame True ev (beh h)" by simp_all
        have wf: "is_wrapper f" using Wrapper by simp
        let ?es = "set_delete f (sets b a)"
        let ?b1 = "b\<lparr>calls := calls b @ [(f, ev)]\<rparr>"
        let ?b2 = "off ev f ?b1"
        let ?b2' = "?b2\<lparr>calls := calls ?b2 @ [(Host h, ev)]\<rparr>"
        have e2: "sets ?b2' a = ?es" and c2: "calls ?b2' = calls b @ [(f, ev), (Host h, ev)]"
          using l by (simp_all add: off_def)
        have s2: "settled beh ev a ?b2'"
          using l o rd by (simp add: settled_def off_def ready_set_delete)
        have lt: "length (wrappers ?es) < length (wrappers (sets b a))"
          using wrappers_set_delete [OF m wf] .
        then have K: "0 < K" and k2: "length (wrappers (sets ?b2' a)) \<le> K - 1"
          using Suc.prems(2) e2 by simp_all
        have sc2: "score ev a g ?b2' = score ev a g b" if "is_wrapper g" for g
          using that m Wrapper unfolding score_def e2 c2
          by (cases g) (auto simp: set_delete_def)
        have H: "finishes beh ev a 0 b"
          if "settled beh ev a b" "length (wrappers (sets b a)) \<le> K - 1" for b
          using outer [of "K - 1" b 0] K that by (simp add: wrappers_def)
        from exec_tame [of True beh ev a "K - 1" "beh h" ?b2', OF H t s2 k2] obtain n1 t1 b3 where
          x: "exec n1 beh (beh h) ?b2' = Some (t1, b3)" "settled beh ev a b3"
            "sets b3 a = ?es \<or> sets b3 a = map strip ?es"
            "\<forall>f. is_wrapper f \<longrightarrow> score ev a f b3 = score ev a f ?b2'"
          unfolding e2 by auto
        let ?b4 = "if t1 then b3\<lparr>console := console b3 @ [ev]\<rparr> else b3"
        have s4: "settled beh ev a ?b4" and e4': "sets ?b4 a = sets b3 a"
          using x(2) by simp_all
        have e4: "sets ?b4 a = ?es \<or> sets ?b4 a = map strip ?es"
          unfolding e4' using x(3) .
        have sc4: "score ev a g ?b4 = score ev a g b" if "is_wrapper g" for g
          using x(4) sc2 that by simp
        have k4: "length (wrappers (sets ?b4 a)) \<le> K - 1"
          unfolding e4' using x(3) k2 e2 by auto
        have w4: "wrappers (take (Suc i) (sets ?b4 a)) = []"
          unfolding e4' using x(3) wrappers_take_Suc [OF Suc.prems(3) i, of f] Some by auto
        from outer [of "K - 1" ?b4 "Suc i", OF _ s4 k4 w4] K obtain n b' where
          r: "forEach n beh ev a (Suc i) ?b4 = Some b'" "settled beh ev a b'"
            "sets b' a = map strip (sets ?b4 a)"
            "\<forall>f. is_wrapper f \<longrightarrow> score ev a f b' = score ev a f ?b4"
          unfolding finishes_def by auto
        let ?m = "max n (Suc (Suc n1))"
        have "call (Suc n1) beh (Host h) ev ?b2 = Some (t1, b3)" using x(1) by (simp add: Let_def)
        then have "call (Suc (Suc n1)) beh f ev b = Some (t1, b3)"
          using Wrapper e by (simp add: Let_def)
        then have c: "call ?m beh f ev b = Some (t1, b3)" by (rule call_mono) simp
        have f': "forEach ?m beh ev a (Suc i) ?b4 = Some b'" using r(1) by (rule forEach_mono) simp
        have "forEach (Suc ?m) beh ev a i b = Some b'" using i Some c f' by simp
        moreover have "sets b' a = map strip (sets b a)"
          using r(3) x(3) strip_set_delete [OF wf, of "sets b a"] unfolding e4' by auto
        moreover have "\<forall>f. is_wrapper f \<longrightarrow> score ev a f b' = score ev a f b"
          using r(4) sc4 by simp
        ultimately show ?thesis using r(2) unfolding finishes_def by blast
      qed
    qed
  qed
qed

lemma tidy_on:
  assumes "tidy b"
  shows "tidy (on e f b)"
proof (cases "listeners b e")
  case None
  from assms have a: "\<And>e a. listeners b e = Some a \<Longrightarrow> a < nsets b"
    and i: "\<And>e e' a. listeners b e = Some a \<Longrightarrow> listeners b e' = Some a \<Longrightarrow> e = e'"
    unfolding tidy_def allocated_def by blast+
  have 1: "a' < nsets b + 1" if "((listeners b)(e \<mapsto> nsets b)) x = Some a'" for x a'
    using that a [of x a'] by (cases "x = e") auto
  have 2: "x = y"
    if "((listeners b)(e \<mapsto> nsets b)) x = Some a'" "((listeners b)(e \<mapsto> nsets b)) y = Some a'"
    for x y a'
  proof (cases "x = e"; cases "y = e")
    assume "x = e" "y \<noteq> e"
    with that a [of y a'] show ?thesis by simp
  next
    assume "x \<noteq> e" "y = e"
    with that a [of x a'] show ?thesis by simp
  next
    assume "x \<noteq> e" "y \<noteq> e"
    with that i [of x a' y] show ?thesis by simp
  qed simp
  have L: "listeners (on e f b) = (listeners b)(e \<mapsto> nsets b)"
    and N: "nsets (on e f b) = nsets b + 1"
    using None by (simp_all add: on_def)
  show ?thesis
    unfolding tidy_def allocated_def L N using 1 2 by blast
next
  case (Some a)
  with assms show ?thesis by (simp add: tidy_def allocated_def on_def)
qed

lemma tidy_kept:
  assumes "exec n beh cs b = Some (t, r)" and "tidy b"
  shows "tidy r"
proof -
  have 1: "tidy b \<longrightarrow> tidy (b\<lparr>calls := c\<rparr>)" for b c by (simp add: tidy_def allocated_def)
  have 2: "tidy b \<longrightarrow> tidy (b\<lparr>console := c\<rparr>)" for b c by (simp add: tidy_def allocated_def)
  have 3: "tidy b \<longrightarrow> tidy (off e f b)" for b e f
    by (simp add: tidy_def allocated_def off_def split: option.splits)
  have 4: "tidy b \<longrightarrow> tidy (once e h b)" for b e h
  proof
    assume "tidy b"
    then have "tidy (b\<lparr>nwrappers := nwrappers b + 1\<rparr>)" by (simp add: tidy_def allocated_def)
    then show "tidy (once e h b)" unfolding once_def by (rule tidy_on)
  qed
  have 5: "tidy b \<longrightarrow> tidy (removeAllListeners b)" for b
    by (simp add: tidy_def allocated_def removeAllListeners_def)
  have "(\<forall>ev b r. emit_to n beh ev b = Some r \<longrightarrow> (tidy b \<longrightarrow> tidy r)) \<and>
         (\<forall>ev a i b r. forEach n beh ev a i b = Some r \<longrightarrow> (tidy b \<longrightarrow> tidy r)) \<and>
         (\<forall>f ev b t r. call n beh f ev b = Some (t, r) \<longrightarrow> (tidy b \<longrightarrow> tidy r)) \<and>
         (\<forall>cs b t r. exec n beh cs b = Some (t, r) \<longrightarrow> (tidy b \<longrightarrow> tidy r))"
    by (rule run_rel_all [where R = "\<lambda>b r. tidy b \<longrightarrow> tidy r"])
      (simp_all add: 1 2 3 4 5 tidy_on)
  with assms show ?thesis by blast
qed

lemma tidy_new: "tidy new_bus"
  by (simp add: tidy_def allocated_def new_bus_def)

lemma tidy_settled:
  "tidy b \<Longrightarrow> listeners b ev = Some a \<Longrightarrow> ready beh ev (sets b a) \<Longrightarrow> settled beh ev a b"
  unfolding tidy_def settled_def owns_def allocated_def by blast

lemma emit_times_mono:
  "emit_times n beh m ev b = Some r \<Longrightarrow> n \<le> k \<Longrightarrow> emit_times k beh m ev b = Some r"
proof (induction m arbitrary: b)
  case 0
  then show ?case by simp
next
  case (Suc m)
  then obtain b1 where e: "emit_to n beh ev b = Some b1" and r: "emit_times n beh m ev b1 = Some r"
    by (auto split: option.splits)
  from emit_to_mono [OF e Suc.prems(2)] Suc.IH [OF r Suc.prems(2)] show ?case by simp
qed

lemma emit_times_settled:
  assumes "settled beh ev a b"
  shows "\<exists>n b'. emit_times n beh m ev b = Some b' \<and> settled beh ev a b' \<and>
           (0 < m \<longrightarrow> sets b' a = map strip (sets b a)) \<and>
           (\<forall>f. is_wrapper f \<longrightarrow> score ev a f b' = score ev a f b) \<and>
           (\<exists>new. calls b' = calls b @ new)"
  using assms
proof (induction m arbitrary: b)
  case 0
  have "emit_times 0 beh 0 ev b = Some b" by simp
  with 0 show ?case by (intro exI [of _ 0] exI [of _ b]) simp
next
  case (Suc m)
  from forEach_settled [OF Suc.prems, of "length (wrappers (sets b a))" 0] obtain n1 b1 where
    f: "forEach n1 beh ev a 0 b = Some b1" "settled beh ev a b1"
      "sets b1 a = map strip (sets b a)"
      "\<forall>f. is_wrapper f \<longrightarrow> score ev a f b1 = score ev a f b"
    unfolding finishes_def by (auto simp: wrappers_def)
  have l: "listeners b ev = Some a" using Suc.prems by (simp add: settled_def)
  have e: "emit_to (Suc n1) beh ev b = Some b1" using f(1) l by simp
  from calls_grow [OF e] obtain new1 where c1: "calls b1 = calls b @ new1" by blast
  from Suc.IH [OF f(2)] obtain n2 b' new2 where
    r: "emit_times n2 beh m ev b1 = Some b'" "settled beh ev a b'"
      "0 < m \<longrightarrow> sets b' a = map strip (sets b1 a)"
      "\<forall>f. is_wrapper f \<longrightarrow> score ev a f b' = score ev a f b1"
      "calls b' = calls b1 @ new2"
    by blast
  let ?k = "max (Suc n1) n2"
  have 1: "emit_to ?k beh ev b = Some b1" using e by (rule emit_to_mono) simp
  have 2: "emit_times ?k beh m ev b1 = Some b'" using r(1) by (rule emit_times_mono) simp
  have "emit_times ?k beh (Suc m) ev b = Some b'" using 1 2 by simp
  moreover have "sets b' a = map strip (sets b a)"
  proof (cases m)
    case 0
    with r(1) have "b' = b1" by simp
    with f(3) show ?thesis by simp
  next
    case (Suc m')
    with r(3) f(3) show ?thesis by simp
  qed
  moreover have "calls b' = calls b @ (new1 @ new2)" using c1 r(5) by simp
  ultimately show ?case using r(2,4) f(4) by (metis (no_types, lifting))
qed

lemma once_entries:
  assumes "tidy b" and "ready beh ev (entries b ev)" and "tame True ev (beh h)"
  shows "tidy (once ev h b)" and "ready beh ev (entries (once ev h b) ev)"
    and "Some (Wrapper (nwrappers b) ev h) \<in> set (entries (once ev h b) ev)"
    and "set (entries b ev) \<subseteq> set (entries (once ev h b) ev)"
    and "calls (once ev h b) = calls b" and "nwrappers (once ev h b) = Suc (nwrappers b)"
proof -
  have "tidy (b\<lparr>nwrappers := nwrappers b + 1\<rparr>)"
    using assms(1) by (simp add: tidy_def allocated_def)
  then show "tidy (once ev h b)" unfolding once_def by (rule tidy_on)
  show "ready beh ev (entries (once ev h b) ev)"
    using assms(2,3)
    by (cases "listeners b ev") (auto simp: once_def on_def entries_def set_add_def ready_iff)
  show "Some (Wrapper (nwrappers b) ev h) \<in> set (entries (once ev h b) ev)"
    by (cases "listeners b ev") (auto simp: once_def on_def entries_def set_add_def)
  show "set (entries b ev) \<subseteq> set (entries (once ev h b) ev)"
    by (cases "listeners b ev") (auto simp: once_def on_def entries_def set_add_def)
  show "calls (once ev h b) = calls b" "nwrappers (once ev h b) = Suc (nwrappers b)"
    by (cases "listeners b ev"; simp add: once_def on_def)+
qed

lemma once_iter:
  assumes "tidy b0" and "ready beh ev (entries b0 ev)" and "tame True ev (beh h)"
  shows "tidy ((once ev h ^^ N) b0) \<and> ready beh ev (entries ((once ev h ^^ N) b0) ev) \<and>
         (\<forall>k<N. Some (Wrapper (nwrappers b0 + k) ev h) \<in> set (entries ((once ev h ^^ N) b0) ev)) \<and>
         calls ((once ev h ^^ N) b0) = calls b0 \<and>
         nwrappers ((once ev h ^^ N) b0) = nwrappers b0 + N"
proof (induction N)
  case 0
  with assms show ?case by simp
next
  case (Suc N)
  let ?b = "(once ev h ^^ N) b0"
  from Suc have t: "tidy ?b" and r: "ready beh ev (entries ?b ev)"
    and m: "\<forall>k<N. Some (Wrapper (nwrappers b0 + k) ev h) \<in> set (entries ?b ev)"
    and c: "calls ?b = calls b0" and w: "nwrappers ?b = nwrappers b0 + N"
    by blast+
  note o = once_entries [OF t r assms(3)]
  have "Some (Wrapper (nwrappers b0 + k) ev h) \<in> set (entries (once ev h ?b) ev)"
    if "k < Suc N" for k
  proof (cases "k = N")
    case True
    with o(3) w show ?thesis by simp
  next
    case False
    with that m o(4) show ?thesis by (auto simp: less_Suc_eq)
  qed
  with o(1,2,5,6) c w show ?case by simp
qed




text \<open>
  A run of the model: callback 1 and two \<^verbatim>\<open>once\<close> registrations of callback 4, which
  emits again from inside. Callback 1 is called by each of the three emits; each wrapper
  is called once.
\<close>

lemma emit_example:
  "map_option calls (emit_to 40 example_beh ''disconnected''
     (once ''disconnected'' 4 (once ''disconnected'' 4 (on ''disconnected'' (Host 1) new_bus)))) =
   Some [(Host 1, ''disconnected''),
         (Wrapper 0 ''disconnected'' 4, ''disconnected''), (Host 4, ''disconnected''),
         (Host 1, ''disconnected''),
         (Wrapper 1 ''disconnected'' 4, ''disconnected''), (Host 4, ''disconnected''),
         (Host 1, ''disconnected'')]"
  by code_simp

end
